theory Spec2Isabelle
  imports Main
begin

section \<open>JavaScript strings\<close>

text \<open>
  A string is a list of 8-bit characters, read as the code units U+0000 to U+00FF.
  The functions below are the string methods the client calls, restricted to that range.
\<close>

text \<open>White space as \<^verbatim>\<open>String.prototype.trim\<close> and the regex class \<^verbatim>\<open>\s\<close> see it:
  TAB, LF, VT, FF, CR, SPACE and NBSP.\<close>

definition isWhiteSpace :: "char \<Rightarrow> bool" where
  "isWhiteSpace c = (c \<in> set [CHR 0x09, CHR 0x0A, CHR 0x0B, CHR 0x0C, CHR 0x0D, CHR 0x20, CHR 0xA0])"

definition trim :: "string \<Rightarrow> string" where
  "trim s = rev (dropWhile isWhiteSpace (rev (dropWhile isWhiteSpace s)))"

text \<open>\<^verbatim>\<open>toLowerCase\<close>: A-Z and the Latin-1 capitals U+00C0 to U+00DE (without the
  multiplication sign U+00D7) move up by 32; every other character stays.\<close>

definition toLowerChar :: "char \<Rightarrow> char" where
  "toLowerChar c =
     (let n = (of_char c :: nat)
      in if (65 \<le> n \<and> n \<le> 90) \<or> (192 \<le> n \<and> n \<le> 222 \<and> n \<noteq> 215)
         then char_of (n + 32) else c)"

definition toLowerCase :: "string \<Rightarrow> string" where
  "toLowerCase s = map toLowerChar s"

text \<open>\<^verbatim>\<open>s.startsWith(t)\<close> and \<^verbatim>\<open>s.includes(t)\<close> (the latter as \<open>str_includes\<close>).\<close>

fun startsWith :: "string \<Rightarrow> string \<Rightarrow> bool" where
  "startsWith s [] = True"
| "startsWith [] (d # t) = False"
| "startsWith (c # s) (d # t) = (c = d \<and> startsWith s t)"

fun str_includes :: "string \<Rightarrow> string \<Rightarrow> bool" where
  "str_includes [] t = (t = [])"
| "str_includes (c # s) t = (startsWith (c # s) t \<or> str_includes s t)"

text \<open>\<^verbatim>\<open>parseInt\<close> of a string of decimal digits.\<close>

definition digitValue :: "char \<Rightarrow> nat" where
  "digitValue c = of_char c - 48"

definition parseInt :: "string \<Rightarrow> nat" where
  "parseInt ds = foldl (\<lambda>n c. 10 * n + digitValue c) 0 ds"

section \<open>Regular expressions\<close>

text \<open>
  A matcher maps the text at the current position to the list of texts that can remain after
  a match, in the order in which a backtracking engine tries them (greedy quantifiers try
  the longer repetition first). The combinators are the constructs the client's patterns use.
\<close>

type_synonym matcher = "string \<Rightarrow> string list"

definition cls :: "(char \<Rightarrow> bool) \<Rightarrow> matcher" where
  "cls p s = (case s of [] \<Rightarrow> [] | c # t \<Rightarrow> if p c then [t] else [])"

definition seq :: "matcher \<Rightarrow> matcher \<Rightarrow> matcher" where
  "seq a b s = concat (map b (a s))"

text \<open>\<open>repeat a m k\<close> is the greedy quantifier \<^verbatim>\<open>a{m,m+k}\<close>: \<open>m\<close> iterations that must
  match, then up to \<open>k\<close> more.\<close>

fun repeat :: "matcher \<Rightarrow> nat \<Rightarrow> nat \<Rightarrow> matcher" where
  "repeat a 0 0 s = [s]"
| "repeat a 0 (Suc k) s = concat (map (repeat a 0 k) (a s)) @ [s]"
| "repeat a (Suc m) k s = concat (map (repeat a m k) (a s))"

definition opt :: "matcher \<Rightarrow> matcher" where
  "opt a = repeat a 0 1"

text \<open>\<^verbatim>\<open>a+\<close>. No pattern of the client repeats a matcher that accepts the empty text, so an
  iteration consumes a character and the length of the text bounds the number of iterations.\<close>

definition plus1 :: "matcher \<Rightarrow> matcher" where
  "plus1 a s = repeat a 1 (length s) s"

text \<open>A literal under the \<^verbatim>\<open>i\<close> flag: each character matches in either case.\<close>

definition lit_i :: "string \<Rightarrow> matcher" where
  "lit_i l = foldr (\<lambda>c. seq (cls (\<lambda>x. toLowerChar x = toLowerChar c))) l (\<lambda>s. [s])"

text \<open>\<^verbatim>\<open>regex.test(s)\<close> for a pattern anchored with \<^verbatim>\<open>^\<close> and \<^verbatim>\<open>$\<close>: some way of matching
  from the start leaves nothing.\<close>

definition test_anchored :: "matcher \<Rightarrow> string \<Rightarrow> bool" where
  "test_anchored r s = ([] \<in> set (r s))"

text \<open>\<^verbatim>\<open>s.match(regex)\<close> for an unanchored pattern without the \<^verbatim>\<open>g\<close> flag: the leftmost
  position at which the pattern matches, and there the first match the engine finds.
  The result is the matched text (element 0 of the match array).\<close>

fun match0 :: "matcher \<Rightarrow> string \<Rightarrow> string option" where
  "match0 r [] = (case r [] of [] \<Rightarrow> None | t # ts \<Rightarrow> Some [])"
| "match0 r (c # s) =
     (case r (c # s) of
        [] \<Rightarrow> match0 r s
      | t # ts \<Rightarrow> Some (take (length (c # s) - length t) (c # s)))"

text \<open>The three patterns of the DMARC analysis have the shape \<^verbatim>\<open>/key(class+)/i\<close> with a
  key that ends in \<^verbatim>\<open>=\<close>: the group is what follows the key in the matched text.\<close>

definition matchGroup1 :: "string \<Rightarrow> (char \<Rightarrow> bool) \<Rightarrow> string \<Rightarrow> string option" where
  "matchGroup1 key p s = map_option (drop (length key)) (match0 (seq (lit_i key) (plus1 (cls p))) s)"

section \<open>Domain validation\<close>

text \<open>The classes \<^verbatim>\<open>[a-z0-9]\<close> and \<^verbatim>\<open>[a-z0-9-]\<close> under the \<^verbatim>\<open>i\<close> flag.\<close>

definition alnum :: "char \<Rightarrow> bool" where
  "alnum c = (c \<in> set ''abcdefghijklmnopqrstuvwxyzABCDEFGHIJKLMNOPQRSTUVWXYZ0123456789'')"

definition alnumHyphen :: "char \<Rightarrow> bool" where
  "alnumHyphen c = (alnum c \<or> c = CHR ''-'')"

text \<open>
  \<^verbatim>\<open>/^(?:[a-z0-9](?:[a-z0-9-]{0,61}[a-z0-9])?\.)+[a-z0-9][a-z0-9-]{0,61}[a-z0-9]$/i\<close>
\<close>

definition domainRegex :: matcher where
  "domainRegex =
     seq (plus1 (seq (cls alnum)
                (seq (opt (seq (repeat (cls alnumHyphen) 0 61) (cls alnum)))
                     (cls (\<lambda>c. c = CHR ''.'')))))
         (seq (cls alnum) (seq (repeat (cls alnumHyphen) 0 61) (cls alnum)))"

definition isValidDomain :: "string \<Rightarrow> bool" where
  "isValidDomain domain = test_anchored domainRegex domain"

section \<open>Results\<close>

text \<open>
  Every protocol check reports one of the three string literals \<^verbatim>\<open>'ok'\<close>,
  \<^verbatim>\<open>'warning'\<close> and \<^verbatim>\<open>'error'\<close>.
\<close>

datatype Status = StOk | StWarning | StError

text \<open>The objects the analyses return. A field that an object literal leaves out
  (\<^verbatim>\<open>error\<close>) is \<open>None\<close>.\<close>

record DmarcResult =
  dmarc_status :: Status
  dmarc_record :: string
  dmarc_policy :: string
  dmarc_error :: "string option"

record SpfResult =
  spf_status :: Status
  spf_record :: string
  spf_error :: "string option"

record DkimResult =
  dkim_status :: Status
  dkim_selectors :: "string list"
  dkim_error :: "string option"

record DomainCheckResult =
  domain :: string
  error :: "string option"
  dmarc :: DmarcResult
  spf :: SpfResult
  dkim :: DkimResult
  mx :: "string list"
  securityScore :: int

text \<open>\<^verbatim>\<open>_getErrorResult(domain, errorMessage)\<close>\<close>

definition getErrorResult :: "string \<Rightarrow> string \<Rightarrow> DomainCheckResult" where
  "getErrorResult d errorMessage =
     \<lparr>domain = d,
      error = Some errorMessage,
      dmarc = \<lparr>dmarc_status = StError, dmarc_record = [], dmarc_policy = [], dmarc_error = None\<rparr>,
      spf = \<lparr>spf_status = StError, spf_record = [], spf_error = None\<rparr>,
      dkim = \<lparr>dkim_status = StError, dkim_selectors = [], dkim_error = None\<rparr>,
      mx = [],
      securityScore = 0\<rparr>"

text \<open>
  \<^verbatim>\<open>_calculateSecurityScore(dmarcStatus, spfStatus, dkimStatus)\<close>: the score starts at 0
  and each of the three \<^verbatim>\<open>if / else if\<close> statements adds to it.
\<close>

definition calculateSecurityScore :: "Status \<Rightarrow> Status \<Rightarrow> Status \<Rightarrow> int" where
  "calculateSecurityScore dmarcStatus spfStatus dkimStatus =
     (let score = 0;
          score = (if dmarcStatus = StOk then score + 40
                   else if dmarcStatus = StWarning then score + 20 else score);
          score = (if spfStatus = StOk then score + 30
                   else if spfStatus = StWarning then score + 15 else score);
          score = (if dkimStatus = StOk then score + 30
                   else if dkimStatus = StWarning then score + 15 else score)
      in score)"

text \<open>The messages of the source are Russian sentences; each is kept as a constant with an
  English rendering of its text.\<close>

definition msgNoDomain :: string where
  "msgNoDomain = ''No domain given to check''"

definition msgInvalidFormat :: string where
  "msgInvalidFormat = ''Invalid domain name format''"

definition msgAlreadyScanning :: string where
  "msgAlreadyScanning = ''Scanning is already running''"

definition msgNoValidDomains :: string where
  "msgNoValidDomains = ''The list has no valid domains to scan''"

section \<open>The client and its surroundings\<close>

text \<open>
  The surroundings of the client: what the DNS lookup behind \<^verbatim>\<open>_dnsLookup\<close> answers and
  what \<^verbatim>\<open>Math.random\<close> draws. The source's \<^verbatim>\<open>_dnsLookup\<close> is a demonstration stand-in
  (fixed answers for two domains, random ones otherwise); the analyses only consume its
  result, so the answer is a parameter: \<open>dnsAnswer w n name type\<close> is the outcome of the
  \<open>n\<close>-th lookup the client makes, \<open>Inl message\<close> for a rejected promise and \<open>Inr records\<close>
  for a resolved one. \<open>randomDraw w n\<close> is the \<open>n\<close>-th random draw.
\<close>

record world =
  dnsAnswer :: "nat \<Rightarrow> string \<Rightarrow> string \<Rightarrow> string + string list"
  randomDraw :: "nat \<Rightarrow> nat"

text \<open>
  The fields of \<^verbatim>\<open>MultiModeDmarcClient\<close>. \<open>activeScanTasks\<close> is the length of the array of
  worker promises. The last three fields are not in the source: they count the calls of
  \<^verbatim>\<open>_dnsLookup\<close>, of \<^verbatim>\<open>Math.random\<close> and of the mode's check method, as a test double would.
\<close>

record client =
  delay :: int
  concurrentRequests :: int
  apiKey :: string
  mode :: string
  isScanning :: bool
  shouldStop :: bool
  activeScanTasks :: nat
  cache :: "string \<rightharpoonup> DomainCheckResult"
  cacheEnabled :: bool
  dnsCalls :: nat
  randomCalls :: nat
  strategyCalls :: nat

text \<open>The constructor with its defaults (\<^verbatim>\<open>new MultiModeDmarcClient()\<close>).\<close>

definition newClient :: client where
  "newClient =
     \<lparr>delay = 1000, concurrentRequests = 3, apiKey = [], mode = ''simulation'',
      isScanning = False, shouldStop = False, activeScanTasks = 0,
      cache = Map.empty, cacheEnabled = True,
      dnsCalls = 0, randomCalls = 0, strategyCalls = 0\<rparr>"

text \<open>\<^verbatim>\<open>_dnsLookup(domain, type)\<close>\<close>

definition dnsLookup :: "world \<Rightarrow> string \<Rightarrow> string \<Rightarrow> client \<Rightarrow> (string + string list) \<times> client" where
  "dnsLookup w name type st = (dnsAnswer w (dnsCalls st) name type, st\<lparr>dnsCalls := dnsCalls st + 1\<rparr>)"

text \<open>\<^verbatim>\<open>arr[Math.floor(Math.random() * arr.length)]\<close>: some element of the array.\<close>

definition randomItem :: "world \<Rightarrow> 'a list \<Rightarrow> client \<Rightarrow> 'a \<times> client" where
  "randomItem w arr st =
     (arr ! (randomDraw w (randomCalls st) mod length arr), st\<lparr>randomCalls := randomCalls st + 1\<rparr>)"

subsection \<open>Modes\<close>

definition setMode :: "string \<Rightarrow> client \<Rightarrow> client" where
  "setMode m st =
     (let m = (if m \<in> set [''api'', ''web'', ''offline'', ''simulation''] then m else ''simulation'')
      in st\<lparr>mode := m\<rparr>)"

definition getMode :: "client \<Rightarrow> string" where
  "getMode st = mode st"

definition checkApiModeAvailability :: "client \<Rightarrow> bool" where
  "checkApiModeAvailability st = (if apiKey st = [] then False else False)"

definition checkWebModeAvailability :: "client \<Rightarrow> bool" where
  "checkWebModeAvailability st = False"

text \<open>
  \<^verbatim>\<open>checkOfflineModeAvailability()\<close>: the body returns
  \<^verbatim>\<open>!!testResult && Array.isArray(testResult)\<close>. A resolved lookup gives an array, and every
  array, the empty one too, is truthy; the \<^verbatim>\<open>catch\<close> returns false.
\<close>

definition checkOfflineModeAvailability :: "world \<Rightarrow> client \<Rightarrow> bool \<times> client" where
  "checkOfflineModeAvailability w st =
     (case dnsLookup w ''example.com'' ''TXT'' st of
        (Inl msg, st') \<Rightarrow> (False, st')
      | (Inr testResult, st') \<Rightarrow> (True, st'))"

definition selectBestAvailableMode :: "world \<Rightarrow> client \<Rightarrow> client" where
  "selectBestAvailableMode w st =
     (if checkApiModeAvailability st then setMode ''api'' st
      else if checkWebModeAvailability st then setMode ''web'' st
      else (case checkOfflineModeAvailability w st of
              (True, st') \<Rightarrow> setMode ''offline'' st'
            | (False, st') \<Rightarrow> setMode ''simulation'' st'))"

section \<open>Record analyses (offline mode)\<close>

text \<open>\<^verbatim>\<open>_getMxRecords(domain)\<close>\<close>

definition getMxRecords :: "world \<Rightarrow> string \<Rightarrow> client \<Rightarrow> string list \<times> client" where
  "getMxRecords w d st =
     (case dnsLookup w d ''MX'' st of
        (Inl msg, st') \<Rightarrow> ([], st')
      | (Inr mxRecords, st') \<Rightarrow> (if length mxRecords = 0 then [] else mxRecords, st'))"

text \<open>The classes \<^verbatim>\<open>[^;\s]\<close> and \<^verbatim>\<open>[0-9]\<close>.\<close>

definition notSemicolonSpace :: "char \<Rightarrow> bool" where
  "notSemicolonSpace c = (c \<noteq> CHR '';'' \<and> \<not> isWhiteSpace c)"

definition isDigit :: "char \<Rightarrow> bool" where
  "isDigit c = (c \<in> set ''0123456789'')"

definition dmarcNotFound :: DmarcResult where
  "dmarcNotFound = \<lparr>dmarc_status = StError, dmarc_record = [], dmarc_policy = [], dmarc_error = None\<rparr>"

text \<open>
  \<^verbatim>\<open>_checkDmarc\<close> after its lookup has resolved with \<open>dmarcRecords\<close>: the search for the
  record, then the three tests, each of which may overwrite \<open>status\<close>.
\<close>

definition checkDmarcRecords :: "string list \<Rightarrow> DmarcResult" where
  "checkDmarcRecords dmarcRecords =
     (if length dmarcRecords = 0 then dmarcNotFound
      else case find (\<lambda>record. str_includes record ''v=DMARC1'') dmarcRecords of
        None \<Rightarrow> dmarcNotFound
      | Some dmarcRecord \<Rightarrow>
          (let status = StOk;
               policy = [];
               policyMatch = matchGroup1 ''p='' notSemicolonSpace dmarcRecord;
               (status, policy) =
                  (case policyMatch of
                     Some g \<Rightarrow>
                       (let policy = toLowerCase g
                        in (if policy = ''none'' then StWarning else status, policy))
                   | None \<Rightarrow> (StWarning, policy));
               pctMatch = matchGroup1 ''pct='' isDigit dmarcRecord;
               status = (case pctMatch of
                           None \<Rightarrow> StWarning
                         | Some g \<Rightarrow> if parseInt g < 100 then StWarning else status);
               ruaMatch = matchGroup1 ''rua='' notSemicolonSpace dmarcRecord;
               status = (case ruaMatch of None \<Rightarrow> StWarning | Some g \<Rightarrow> status)
           in \<lparr>dmarc_status = status, dmarc_record = dmarcRecord, dmarc_policy = policy,
               dmarc_error = None\<rparr>))"

text \<open>\<^verbatim>\<open>_checkDmarc(domain)\<close>: the lookup of \<^verbatim>\<open>_dmarc.<domain>\<close>; a rejected lookup is caught.\<close>

definition checkDmarc :: "world \<Rightarrow> string \<Rightarrow> client \<Rightarrow> DmarcResult \<times> client" where
  "checkDmarc w d st =
     (case dnsLookup w (''_dmarc.'' @ d) ''TXT'' st of
        (Inl msg, st') \<Rightarrow>
          (\<lparr>dmarc_status = StError, dmarc_record = [], dmarc_policy = [], dmarc_error = Some msg\<rparr>, st')
      | (Inr dmarcRecords, st') \<Rightarrow> (checkDmarcRecords dmarcRecords, st'))"

definition spfNotFound :: SpfResult where
  "spfNotFound = \<lparr>spf_status = StError, spf_record = [], spf_error = None\<rparr>"

text \<open>\<^verbatim>\<open>_checkSpf\<close> after its lookup has resolved with \<open>txtRecords\<close>.\<close>

definition checkSpfRecords :: "string list \<Rightarrow> SpfResult" where
  "checkSpfRecords txtRecords =
     (if length txtRecords = 0 then spfNotFound
      else case find (\<lambda>record. str_includes record ''v=spf1'') txtRecords of
        None \<Rightarrow> spfNotFound
      | Some spfRecord \<Rightarrow>
          (let status = StOk;
               status =
                 (if str_includes spfRecord ''?all'' then StWarning
                  else if str_includes spfRecord ''+all'' then StWarning
                  else if \<not> str_includes spfRecord ''-all'' \<and> \<not> str_includes spfRecord ''~all''
                       then StWarning
                  else status)
           in \<lparr>spf_status = status, spf_record = spfRecord, spf_error = None\<rparr>))"

definition checkSpf :: "world \<Rightarrow> string \<Rightarrow> client \<Rightarrow> SpfResult \<times> client" where
  "checkSpf w d st =
     (case dnsLookup w d ''TXT'' st of
        (Inl msg, st') \<Rightarrow> (\<lparr>spf_status = StError, spf_record = [], spf_error = Some msg\<rparr>, st')
      | (Inr txtRecords, st') \<Rightarrow> (checkSpfRecords txtRecords, st'))"

definition commonSelectors :: "string list" where
  "commonSelectors = [''default'', ''google'', ''selector1'', ''selector2'', ''k1'', ''dkim'']"

text \<open>The test inside the inner loop of \<^verbatim>\<open>_checkDkim\<close>.\<close>

definition dkimData :: "string \<Rightarrow> bool" where
  "dkimData record =
     (str_includes record ''v=DKIM1'' \<or> str_includes record ''k=rsa'' \<or> str_includes record ''p='')"

text \<open>
  The loop over the selectors in \<^verbatim>\<open>_checkDkim\<close>. The inner loop pushes the selector at the
  first record with DKIM data and breaks; a rejected lookup is caught and the loop goes on.
\<close>

fun dkimLoop :: "world \<Rightarrow> string \<Rightarrow> string list \<Rightarrow> string list \<Rightarrow> client \<Rightarrow> string list \<times> client" where
  "dkimLoop w d [] foundSelectors st = (foundSelectors, st)"
| "dkimLoop w d (selector # rest) foundSelectors st =
     (case dnsLookup w (selector @ ''._domainkey.'' @ d) ''TXT'' st of
        (Inl msg, st') \<Rightarrow> dkimLoop w d rest foundSelectors st'
      | (Inr dkimRecords, st') \<Rightarrow>
          dkimLoop w d rest
            (if length dkimRecords > 0 \<and> list_ex dkimData dkimRecords
             then foundSelectors @ [selector] else foundSelectors)
            st')"

text \<open>\<^verbatim>\<open>_checkDkim(domain)\<close>\<close>

definition checkDkim :: "world \<Rightarrow> string \<Rightarrow> client \<Rightarrow> DkimResult \<times> client" where
  "checkDkim w d st =
     (case dkimLoop w d commonSelectors [] st of
        (foundSelectors, st') \<Rightarrow>
          (let status = (if length foundSelectors > 0
                         then (if length foundSelectors > 1 then StOk else StWarning)
                         else StError)
           in (\<lparr>dkim_status = status, dkim_selectors = foundSelectors, dkim_error = None\<rparr>, st')))"

section \<open>Checking one domain\<close>

text \<open>
  An \<^verbatim>\<open>async\<close> method gives a promise; its outcome is \<open>Inl message\<close> when it rejects and
  \<open>Inr value\<close> when it resolves. The methods below catch what their bodies throw.
\<close>

text \<open>\<^verbatim>\<open>_checkDomainOffline(domain)\<close>\<close>

definition checkDomainOffline :: "world \<Rightarrow> string \<Rightarrow> client \<Rightarrow> (string + DomainCheckResult) \<times> client" where
  "checkDomainOffline w d st =
     (case getMxRecords w d st of (mxRecords, st1) \<Rightarrow>
      case checkDmarc w d st1 of (dmarcResult, st2) \<Rightarrow>
      case checkSpf w d st2 of (spfResult, st3) \<Rightarrow>
      case checkDkim w d st3 of (dkimResult, st4) \<Rightarrow>
        (Inr \<lparr>domain = d, error = None, dmarc = dmarcResult, spf = spfResult, dkim = dkimResult,
              mx = mxRecords,
              securityScore = calculateSecurityScore (dmarc_status dmarcResult)
                                (spf_status spfResult) (dkim_status dkimResult)\<rparr>,
         st4))"

text \<open>\<^verbatim>\<open>_simulateDomainCheck(domain)\<close>: three random statuses, a random policy when the DMARC
  status is ok, and the records that go with them.\<close>

definition simulateDomainCheck :: "world \<Rightarrow> string \<Rightarrow> client \<Rightarrow> (string + DomainCheckResult) \<times> client" where
  "simulateDomainCheck w d st =
     (let statuses = [StOk, StWarning, StError] in
      case randomItem w statuses st of (dmarcStatus, st1) \<Rightarrow>
      case randomItem w statuses st1 of (spfStatus, st2) \<Rightarrow>
      case randomItem w statuses st2 of (dkimStatus, st3) \<Rightarrow>
      case (if dmarcStatus = StOk then randomItem w [''reject'', ''quarantine'', ''none''] st3
            else ([], st3)) of (dmarcPolicy, st4) \<Rightarrow>
        (let spfRecord = (if spfStatus = StOk \<or> spfStatus = StWarning
                          then ''v=spf1 include:_spf.'' @ d @ '' ~all'' else []);
             dkimSelectors = (if dkimStatus = StOk then [''default'', ''google'']
                              else if dkimStatus = StWarning then [''default''] else [])
         in (Inr \<lparr>domain = d, error = None,
                  dmarc = \<lparr>dmarc_status = dmarcStatus,
                           dmarc_record = (if dmarcStatus = StError then []
                                           else ''v=DMARC1; p='' @ dmarcPolicy @ ''; pct=100;''),
                           dmarc_policy = dmarcPolicy, dmarc_error = None\<rparr>,
                  spf = \<lparr>spf_status = spfStatus, spf_record = spfRecord, spf_error = None\<rparr>,
                  dkim = \<lparr>dkim_status = dkimStatus, dkim_selectors = dkimSelectors,
                          dkim_error = None\<rparr>,
                  mx = [''mx1.'' @ d, ''mx2.'' @ d],
                  securityScore = calculateSecurityScore dmarcStatus spfStatus dkimStatus\<rparr>,
             st4)))"

text \<open>\<^verbatim>\<open>_checkDomainViaApi\<close> and \<^verbatim>\<open>_checkDomainViaWeb\<close> hand over to the simulation.\<close>

definition checkDomainViaApi :: "world \<Rightarrow> string \<Rightarrow> client \<Rightarrow> (string + DomainCheckResult) \<times> client" where
  "checkDomainViaApi w d st = simulateDomainCheck w d st"

definition checkDomainViaWeb :: "world \<Rightarrow> string \<Rightarrow> client \<Rightarrow> (string + DomainCheckResult) \<times> client" where
  "checkDomainViaWeb w d st = simulateDomainCheck w d st"

text \<open>The values a caller can pass to \<^verbatim>\<open>checkDomain\<close>.\<close>

datatype jsval = JSUndefined | JSNull | JSBoolean bool | JSNumber int | JSString string | JSObject

fun falsy :: "jsval \<Rightarrow> bool" where
  "falsy JSUndefined = True"
| "falsy JSNull = True"
| "falsy (JSBoolean b) = (\<not> b)"
| "falsy (JSNumber n) = (n = 0)"
| "falsy (JSString s) = (s = [])"
| "falsy JSObject = False"

fun typeof :: "jsval \<Rightarrow> string" where
  "typeof JSUndefined = ''undefined''"
| "typeof JSNull = ''object''"
| "typeof (JSBoolean b) = ''boolean''"
| "typeof (JSNumber n) = ''number''"
| "typeof (JSString s) = ''string''"
| "typeof JSObject = ''object''"

fun stringOf :: "jsval \<Rightarrow> string" where
  "stringOf (JSString s) = s"
| "stringOf v = []"

text \<open>
  \<^verbatim>\<open>checkDomain(domain)\<close> in two parts. \<open>checkDomainBegin\<close> is what runs before the first
  \<^verbatim>\<open>await\<close>: the guards and the cache. It either has the result already or has to wait
  for the check of the current mode.
\<close>

datatype pending = Resolved DomainCheckResult | AwaitCheck string

definition checkDomainBegin :: "jsval \<Rightarrow> client \<Rightarrow> pending" where
  "checkDomainBegin v st =
     (if falsy v \<or> typeof v \<noteq> ''string'' then Resolved (getErrorResult ''unknown'' msgNoDomain)
      else let d = toLowerCase (trim (stringOf v)) in
        if \<not> isValidDomain d then Resolved (getErrorResult d msgInvalidFormat)
        else if cacheEnabled st \<and> cache st d \<noteq> None then Resolved (the (cache st d))
        else AwaitCheck d)"

text \<open>The \<^verbatim>\<open>switch\<close> on the mode.\<close>

definition modeCheck :: "world \<Rightarrow> string \<Rightarrow> client \<Rightarrow> (string + DomainCheckResult) \<times> client" where
  "modeCheck w d st =
     (let st = st\<lparr>strategyCalls := strategyCalls st + 1\<rparr> in
      if mode st = ''api'' then checkDomainViaApi w d st
      else if mode st = ''web'' then checkDomainViaWeb w d st
      else if mode st = ''offline'' then checkDomainOffline w d st
      else simulateDomainCheck w d st)"

text \<open>\<open>checkDomainEnd\<close> is the rest: the awaited check, the store into the cache, and the
  \<^verbatim>\<open>catch\<close> that turns a rejection into an error result.\<close>

definition checkDomainEnd :: "world \<Rightarrow> pending \<Rightarrow> client \<Rightarrow> (string + DomainCheckResult) \<times> client" where
  "checkDomainEnd w p st =
     (case p of
        Resolved result \<Rightarrow> (Inr result, st)
      | AwaitCheck d \<Rightarrow>
          (case modeCheck w d st of
             (Inl msg, st') \<Rightarrow> (Inr (getErrorResult d msg), st')
           | (Inr result, st') \<Rightarrow>
               (Inr result,
                if cacheEnabled st' then st'\<lparr>cache := (cache st')(d \<mapsto> result)\<rparr> else st')))"

definition checkDomain :: "world \<Rightarrow> jsval \<Rightarrow> client \<Rightarrow> (string + DomainCheckResult) \<times> client" where
  "checkDomain w v st = checkDomainEnd w (checkDomainBegin v st) st"

section \<open>Scanning a list of domains\<close>

text \<open>\<^verbatim>\<open>stopScan()\<close>\<close>

definition stopScan :: "client \<Rightarrow> client" where
  "stopScan st = (if \<not> isScanning st then st else st\<lparr>shouldStop := True\<rparr>)"

text \<open>
  A worker (\<^verbatim>\<open>startWorker\<close>) is at one of its \<^verbatim>\<open>await\<close>s or has left its loop: it awaits
  \<^verbatim>\<open>this.checkDomain(domain)\<close> for the domain it took from the queue, or it awaits before the
  next round of its loop (the delay after a result), or \<^verbatim>\<open>processNextDomain\<close> has returned
  null.
\<close>

datatype worker = Checking string pending | Pausing | Finished

text \<open>The variables of one \<^verbatim>\<open>checkDomains\<close> call that its workers share.\<close>

record scan =
  domainQueue :: "string list"
  results :: "DomainCheckResult list"
  completedCount :: nat
  workers :: "worker list"

text \<open>
  \<^verbatim>\<open>processNextDomain\<close> up to its \<^verbatim>\<open>await\<close>, run by worker \<open>i\<close>: the stop flag, the
  \<^verbatim>\<open>shift\<close> of the queue, and the start of \<^verbatim>\<open>checkDomain\<close>.
\<close>

definition processNextDomain :: "nat \<Rightarrow> scan \<times> client \<Rightarrow> scan \<times> client" where
  "processNextDomain i c =
     (case c of (sc, st) \<Rightarrow>
        if shouldStop st then (sc\<lparr>workers := (workers sc)[i := Finished]\<rparr>, st)
        else case domainQueue sc of
          [] \<Rightarrow> (sc\<lparr>workers := (workers sc)[i := Finished]\<rparr>, st)
        | d # rest \<Rightarrow>
            if d = [] then (sc\<lparr>domainQueue := rest, workers := (workers sc)[i := Finished]\<rparr>, st)
            else (sc\<lparr>domainQueue := rest,
                     workers := (workers sc)[i := Checking d (checkDomainBegin (JSString d) st)]\<rparr>,
                  st))"

text \<open>
  Worker \<open>i\<close> goes on after its \<^verbatim>\<open>await\<close>. After a check it pushes the result (the error
  result built in its \<^verbatim>\<open>catch\<close> when the check rejected), counts it and pauses; after the
  pause it runs \<^verbatim>\<open>processNextDomain\<close> again. The test of the cache is made when the worker
  takes the domain; the check of the mode, with all its lookups and draws and the store
  into the cache, is one step here, made when the worker is resumed. In the source the
  first lookup of an offline check is made when the worker takes the domain and the
  lookups of several workers alternate, so the position of a lookup among all lookups of a
  scan is not the one of this model; nothing below is stated about that position.
\<close>

definition resumeWorker :: "world \<Rightarrow> nat \<Rightarrow> scan \<times> client \<Rightarrow> scan \<times> client" where
  "resumeWorker w i c =
     (case c of (sc, st) \<Rightarrow>
        if i < length (workers sc) then
          (case workers sc ! i of
             Checking d p \<Rightarrow>
               (case checkDomainEnd w p st of
                  (Inr result, st') \<Rightarrow>
                    (sc\<lparr>results := results sc @ [result],
                        completedCount := completedCount sc + 1,
                        workers := (workers sc)[i := Pausing]\<rparr>, st')
                | (Inl msg, st') \<Rightarrow>
                    (sc\<lparr>results := results sc @ [getErrorResult d msg],
                        completedCount := completedCount sc + 1,
                        workers := (workers sc)[i := Pausing]\<rparr>, st'))
           | Pausing \<Rightarrow> processNextDomain i (sc, st)
           | Finished \<Rightarrow> (sc, st))
        else (sc, st))"

text \<open>
  What happens while \<^verbatim>\<open>checkDomains\<close> awaits its workers: a worker is resumed, or the user
  calls \<^verbatim>\<open>stopScan\<close>. The schedule lists these events in the order in which they happen;
  every order of completion is some schedule. When the schedule is used up, the workers
  that are left are resumed from the first to the last.
\<close>

datatype event = Resume nat | UserStop

definition allFinished :: "worker list \<Rightarrow> bool" where
  "allFinished ws = list_all (\<lambda>x. x = Finished) ws"

definition nextWorker :: "worker list \<Rightarrow> nat" where
  "nextWorker ws = length (takeWhile (\<lambda>x. x = Finished) ws)"

fun workLeft :: "worker \<Rightarrow> nat" where
  "workLeft (Checking d p) = 2"
| "workLeft Pausing = 1"
| "workLeft Finished = 0"

definition scanWorkLeft :: "scan \<times> client \<Rightarrow> nat" where
  "scanWorkLeft c = 2 * length (domainQueue (fst c)) + sum_list (map workLeft (workers (fst c)))"

function runPool :: "world \<Rightarrow> event list \<Rightarrow> scan \<times> client \<Rightarrow> scan \<times> client" where
  "runPool w evs c =
     (if allFinished (workers (fst c)) then c
      else case evs of
        [] \<Rightarrow> runPool w [] (resumeWorker w (nextWorker (workers (fst c))) c)
      | UserStop # es \<Rightarrow> runPool w es (fst c, stopScan (snd c))
      | Resume i # es \<Rightarrow> runPool w es (resumeWorker w i c))"
  by pat_completeness auto

text \<open>\<^verbatim>\<open>_sortResultsByOriginalOrder(results, originalDomains)\<close>: the map from domain to
  result is filled in the order of \<open>results\<close>, a later result replacing an earlier one with
  the same domain; then each domain is looked up.\<close>

definition sortResultsByOriginalOrder :: "DomainCheckResult list \<Rightarrow> string list \<Rightarrow> DomainCheckResult list" where
  "sortResultsByOriginalOrder rs originalDomains =
     (let resultMap = foldl (\<lambda>m result. m(domain result \<mapsto> result)) Map.empty rs
      in map (\<lambda>d. case resultMap d of
                     Some result \<Rightarrow> result
                   | None \<Rightarrow> getErrorResult d ''Result not found'')
             originalDomains)"

text \<open>The two lists \<^verbatim>\<open>checkDomains\<close> filters out of its argument.\<close>

definition validDomainsOf :: "string list \<Rightarrow> string list" where
  "validDomainsOf domains = filter (\<lambda>d. length d > 0 \<and> isValidDomain d) (map trim domains)"

definition invalidDomainsOf :: "string list \<Rightarrow> string list" where
  "invalidDomainsOf domains = filter (\<lambda>d. length d > 0 \<and> \<not> isValidDomain d) (map trim domains)"

text \<open>
  \<^verbatim>\<open>checkDomains(domains, progressCallback)\<close> in two parts. \<open>startScan\<close> is what runs
  between the guards and the \<^verbatim>\<open>await\<close>: the scan state is set, the invalid domains get
  their error results, and the \<^verbatim>\<open>for\<close> loop starts
  \<^verbatim>\<open>Math.min(this.concurrentRequests, validDomains.length)\<close> workers, each of which runs up
  to its first \<^verbatim>\<open>await\<close> at once. The progress callback gets a result that is already
  pushed and what it throws is caught, so it is left out.
\<close>

definition startScan :: "string list \<Rightarrow> client \<Rightarrow> scan \<times> client" where
  "startScan domains st =
     (let validDomains = validDomainsOf domains;
          invalidDomains = invalidDomainsOf domains;
          st = st\<lparr>isScanning := True, shouldStop := False, activeScanTasks := 0\<rparr>;
          sc = \<lparr>domainQueue = validDomains,
                results = map (\<lambda>d. getErrorResult d msgInvalidFormat) invalidDomains,
                completedCount = length invalidDomains,
                workers = []\<rparr>;
          workerCount = nat (min (concurrentRequests st) (int (length validDomains)))
      in foldl (\<lambda>c i. processNextDomain i
                         (fst c\<lparr>workers := workers (fst c) @ [Pausing]\<rparr>,
                          snd c\<lparr>activeScanTasks := activeScanTasks (snd c) + 1\<rparr>))
               (sc, st) [0..<workerCount])"

text \<open>
  The whole method: the two guards throw before anything is assigned; otherwise the scan
  starts, the method awaits its workers under the schedule \<open>evs\<close>, resets the scan state
  and returns the results in the order of \<^verbatim>\<open>[...invalidDomains, ...validDomains]\<close>.
\<close>

definition checkDomains ::
  "world \<Rightarrow> event list \<Rightarrow> string list \<Rightarrow> client \<Rightarrow> (string + DomainCheckResult list) \<times> client" where
  "checkDomains w evs domains st =
     (if isScanning st then (Inl msgAlreadyScanning, st)
      else if length (validDomainsOf domains) = 0 then (Inl msgNoValidDomains, st)
      else case runPool w evs (startScan domains st) of
             (sc, st') \<Rightarrow>
               (Inr (sortResultsByOriginalOrder (results sc)
                       (invalidDomainsOf domains @ validDomainsOf domains)),
                st'\<lparr>isScanning := False, activeScanTasks := 0\<rparr>))"

subsection \<open>The other public methods\<close>

definition clearCache :: "client \<Rightarrow> client" where
  "clearCache st = st\<lparr>cache := Map.empty\<rparr>"

definition setCacheEnabled :: "bool \<Rightarrow> client \<Rightarrow> client" where
  "setCacheEnabled enabled st = st\<lparr>cacheEnabled := enabled\<rparr>"

text \<open>\<^verbatim>\<open>parseInt(delay) || 1000\<close> and \<^verbatim>\<open>parseInt(count) || 3\<close> for integer arguments.\<close>

definition setDelay :: "int \<Rightarrow> client \<Rightarrow> client" where
  "setDelay n st = st\<lparr>delay := (if n = 0 then 1000 else n)\<rparr>"

definition setConcurrentRequests :: "int \<Rightarrow> client \<Rightarrow> client" where
  "setConcurrentRequests n st = st\<lparr>concurrentRequests := (if n = 0 then 3 else n)\<rparr>"

text \<open>A call of a public method that changes the client, and a sequence of such calls, each
  run to its end before the next.\<close>

datatype call =
    CheckDomain jsval
  | CheckDomains "event list" "string list"
  | StopScan
  | SetMode string
  | SelectBestAvailableMode
  | SetCacheEnabled bool
  | SetDelay int
  | SetConcurrentRequests int
  | ClearCache

fun perform :: "world \<Rightarrow> call \<Rightarrow> client \<Rightarrow> client" where
  "perform w (CheckDomain v) st = snd (checkDomain w v st)"
| "perform w (CheckDomains evs domains) st = snd (checkDomains w evs domains st)"
| "perform w StopScan st = stopScan st"
| "perform w (SetMode m) st = setMode m st"
| "perform w SelectBestAvailableMode st = selectBestAvailableMode w st"
| "perform w (SetCacheEnabled b) st = setCacheEnabled b st"
| "perform w (SetDelay n) st = setDelay n st"
| "perform w (SetConcurrentRequests n) st = setConcurrentRequests n st"
| "perform w ClearCache st = clearCache st"

definition performAll :: "world \<Rightarrow> call list \<Rightarrow> client \<Rightarrow> client" where
  "performAll w calls st = foldl (\<lambda>s c. perform w c s) st calls"

section \<open>Notions used in the statements\<close>

text \<open>The weights of the three protocols, and how good a status is.\<close>

fun dmarcWeight :: "Status \<Rightarrow> int" where
  "dmarcWeight StOk = 40"
| "dmarcWeight StWarning = 20"
| "dmarcWeight StError = 0"

fun spfWeight :: "Status \<Rightarrow> int" where
  "spfWeight StOk = 30"
| "spfWeight StWarning = 15"
| "spfWeight StError = 0"

fun dkimWeight :: "Status \<Rightarrow> int" where
  "dkimWeight StOk = 30"
| "dkimWeight StWarning = 15"
| "dkimWeight StError = 0"

fun statusRank :: "Status \<Rightarrow> nat" where
  "statusRank StError = 0"
| "statusRank StWarning = 1"
| "statusRank StOk = 2"

definition strictlyBetter :: "Status \<Rightarrow> Status \<Rightarrow> bool" where
  "strictlyBetter a b = (statusRank b < statusRank a)"

text \<open>The labels of a name: the pieces between the separators, as \<^verbatim>\<open>s.split('.')\<close> gives
  them.\<close>

fun splitOn :: "char \<Rightarrow> string \<Rightarrow> string list" where
  "splitOn sep [] = [[]]"
| "splitOn sep (c # s) =
     (if c = sep then [] # splitOn sep s
      else (c # hd (splitOn sep s)) # tl (splitOn sep s))"

text \<open>A label of 1 to 63 letters, digits and hyphens that neither starts nor ends with a
  hyphen.\<close>

definition labelOk :: "string \<Rightarrow> bool" where
  "labelOk l = (1 \<le> length l \<and> length l \<le> 63 \<and> list_all alnumHyphen l \<and> alnum (hd l) \<and> alnum (last l))"

text \<open>The domain names as the specification words them: one or more labels.\<close>

definition specValidDomain :: "string \<Rightarrow> bool" where
  "specValidDomain s = (let labels = splitOn CHR ''.'' s in 1 \<le> length labels \<and> list_all labelOk labels)"

text \<open>The domain names with two or more labels, the last of at least two characters.\<close>

definition dottedDomain :: "string \<Rightarrow> bool" where
  "dottedDomain s =
     (let labels = splitOn CHR ''.'' s
      in 2 \<le> length labels \<and> list_all labelOk labels \<and> 2 \<le> length (last labels))"

text \<open>A matcher accepts a language when, on every text, it leaves exactly the rests of the
  text after a word of the language.\<close>

definition accepts :: "matcher \<Rightarrow> string set \<Rightarrow> bool" where
  "accepts m L = (\<forall>s. set (m s) = {t. \<exists>u\<in>L. s = u @ t})"

text \<open>
  What the patterns of \<^verbatim>\<open>_checkDmarc\<close> find, read without a regular expression. The key
  is looked for as a piece of text: it is at the start of a text when the text begins with
  the key (in either case) followed by an admissible character, whatever stands before it,
  so \<^verbatim>\<open>p=\<close> is also found inside \<^verbatim>\<open>sp=\<close>. The value is the longest run of admissible
  characters after the leftmost such place.
\<close>

definition keyTextAt :: "string \<Rightarrow> (char \<Rightarrow> bool) \<Rightarrow> string \<Rightarrow> bool" where
  "keyTextAt key p s =
     (length key < length s \<and> toLowerCase (take (length key) s) = toLowerCase key \<and> p (s ! length key))"

fun textValueAfter :: "string \<Rightarrow> (char \<Rightarrow> bool) \<Rightarrow> string \<Rightarrow> string option" where
  "textValueAfter key p [] = None"
| "textValueAfter key p (c # s) =
     (if keyTextAt key p (c # s) then Some (takeWhile p (drop (length key) (c # s)))
      else textValueAfter key p s)"

text \<open>What \<^verbatim>\<open>_checkDmarc\<close> makes of its three matches: the policy, the percentage, and
  whether it sets the status to warning.\<close>

definition matchedPolicy :: "string \<Rightarrow> string" where
  "matchedPolicy r =
     (case textValueAfter ''p='' notSemicolonSpace r of None \<Rightarrow> [] | Some g \<Rightarrow> toLowerCase g)"

definition matchedPct :: "string \<Rightarrow> nat option" where
  "matchedPct r = map_option parseInt (textValueAfter ''pct='' isDigit r)"

definition matchedWarning :: "string \<Rightarrow> bool" where
  "matchedWarning r =
     (textValueAfter ''p='' notSemicolonSpace r = None
      \<or> matchedPolicy r = ''none''
      \<or> (case matchedPct r of None \<Rightarrow> True | Some n \<Rightarrow> n < 100)
      \<or> textValueAfter ''rua='' notSemicolonSpace r = None)"

text \<open>
  The DMARC analysis as the specification words it. A record is a list of tags separated
  by semicolons, each a name, \<^verbatim>\<open>=\<close> and a value; the tag \<^verbatim>\<open>p\<close> is the tag whose name is
  \<^verbatim>\<open>p\<close> (in either case), not \<^verbatim>\<open>sp\<close>. A tag without a value counts as missing.
\<close>

definition tagName :: "string \<Rightarrow> string" where
  "tagName piece = toLowerCase (trim (takeWhile (\<lambda>c. c \<noteq> CHR ''='') piece))"

definition tagValue :: "string \<Rightarrow> string" where
  "tagValue piece =
     takeWhile (\<lambda>c. \<not> isWhiteSpace c)
       (dropWhile isWhiteSpace (drop 1 (dropWhile (\<lambda>c. c \<noteq> CHR ''='') piece)))"

text \<open>The pieces of a record between its semicolons; \<open>piece\<close> holds the characters of the
  current piece, the last one first.\<close>

fun piecesFrom :: "string \<Rightarrow> string \<Rightarrow> string list" where
  "piecesFrom piece [] = [rev piece]"
| "piecesFrom piece (c # s) =
     (if c = CHR '';'' then rev piece # piecesFrom [] s else piecesFrom (c # piece) s)"

definition specTag :: "string \<Rightarrow> string \<Rightarrow> string option" where
  "specTag name record =
     (case filter (\<lambda>piece. CHR ''='' \<in> set piece \<and> tagName piece = name \<and> tagValue piece \<noteq> [])
                  (piecesFrom [] record) of
        [] \<Rightarrow> None
      | piece # rest \<Rightarrow> Some (tagValue piece))"

text \<open>The number a string of decimal digits writes; no number for any other string.\<close>

definition digitOf :: "char \<Rightarrow> nat option" where
  "digitOf c = map_of (zip ''0123456789'' [0 ..< 10]) c"

fun decimalFrom :: "nat \<Rightarrow> string \<Rightarrow> nat option" where
  "decimalFrom n [] = Some n"
| "decimalFrom n (c # cs) =
     (case digitOf c of None \<Rightarrow> None | Some k \<Rightarrow> decimalFrom (10 * n + k) cs)"

definition decimalOf :: "string \<Rightarrow> nat option" where
  "decimalOf ds = (if ds = [] then None else decimalFrom 0 ds)"

definition specDmarc :: "string list \<Rightarrow> DmarcResult" where
  "specDmarc recs =
     (case find (\<lambda>r. str_includes r ''v=DMARC1'') recs of
        None \<Rightarrow> \<lparr>dmarc_status = StError, dmarc_record = [], dmarc_policy = [], dmarc_error = None\<rparr>
      | Some r \<Rightarrow>
          (let policy = (case specTag ''p'' r of None \<Rightarrow> [] | Some v \<Rightarrow> toLowerCase v);
               pctLow = (case specTag ''pct'' r of
                           None \<Rightarrow> True
                         | Some v \<Rightarrow> (case decimalOf v of None \<Rightarrow> True | Some n \<Rightarrow> n < 100))
           in \<lparr>dmarc_status =
                  (if specTag ''p'' r = None \<or> policy = ''none'' \<or> pctLow \<or> specTag ''rua'' r = None
                   then StWarning else StOk),
                dmarc_record = r, dmarc_policy = policy, dmarc_error = None\<rparr>))"

text \<open>Whether the \<open>n\<close>-th lookup, made for a selector, resolves with a record that contains
  \<^verbatim>\<open>v=DKIM1\<close>, \<^verbatim>\<open>k=rsa\<close> or \<^verbatim>\<open>p=\<close>, and the selectors of a list that are found in this
  sense when they are probed one after the other from the \<open>n\<close>-th lookup on.\<close>

definition selectorFound :: "world \<Rightarrow> string \<Rightarrow> nat \<Rightarrow> string \<Rightarrow> bool" where
  "selectorFound w d n selector =
     (case dnsAnswer w n (selector @ ''._domainkey.'' @ d) ''TXT'' of
        Inl msg \<Rightarrow> False
      | Inr recs \<Rightarrow>
          list_ex (\<lambda>record. str_includes record ''v=DKIM1'' \<or> str_includes record ''k=rsa''
                             \<or> str_includes record ''p='') recs)"

definition foundFrom :: "world \<Rightarrow> string \<Rightarrow> nat \<Rightarrow> string list \<Rightarrow> string list" where
  "foundFrom w d n selectors =
     map snd (filter (\<lambda>(i, selector). selectorFound w d i selector) (enumerate n selectors))"

text \<open>A DNS that resolves every lookup with no records, and one that rejects every lookup.\<close>

definition emptyDns :: world where
  "emptyDns = \<lparr>dnsAnswer = (\<lambda>n name type. Inr []), randomDraw = (\<lambda>n. 0)\<rparr>"

definition failingDns :: world where
  "failingDns = \<lparr>dnsAnswer = (\<lambda>n name type. Inl ''timeout''), randomDraw = (\<lambda>n. 0)\<rparr>"

text \<open>Surroundings for the examples: the same TXT answer to every lookup, and three DNS for
  the DKIM selectors. In the first the lookup for \<^verbatim>\<open>default\<close> fails, \<^verbatim>\<open>google\<close>,
  \<^verbatim>\<open>selector1\<close>, \<^verbatim>\<open>selector2\<close> and \<^verbatim>\<open>k1\<close> have records and only the record of
  \<^verbatim>\<open>selector2\<close> has none of the three marks; in the second only \<^verbatim>\<open>k1\<close> has a key; in the
  third every selector has a record and none has a mark.\<close>

definition txtDns :: "string list \<Rightarrow> world" where
  "txtDns recs = \<lparr>dnsAnswer = (\<lambda>n name type. Inr recs), randomDraw = (\<lambda>n. 0)\<rparr>"

definition dkimDns :: world where
  "dkimDns =
     \<lparr>dnsAnswer = (\<lambda>n name type.
          if name = ''default._domainkey.x.com'' then Inl ''timeout''
          else if name = ''google._domainkey.x.com'' then Inr [''v=DKIM1; k=rsa; p=MIGfMA0G'']
          else if name = ''selector1._domainkey.x.com'' then Inr [''site-verification=1'', ''v=DKIM1'']
          else if name = ''selector2._domainkey.x.com'' then Inr [''v=spf1 include:x.com -all'']
          else if name = ''k1._domainkey.x.com'' then Inr [''t=y; k=rsa'']
          else Inr []),
      randomDraw = (\<lambda>n. 0)\<rparr>"

definition dkimOneDns :: world where
  "dkimOneDns =
     \<lparr>dnsAnswer = (\<lambda>n name type.
          if name = ''k1._domainkey.x.com'' then Inr [''p=MIGfMA0G''] else Inr []),
      randomDraw = (\<lambda>n. 0)\<rparr>"

definition dkimNoneDns :: world where
  "dkimNoneDns =
     \<lparr>dnsAnswer = (\<lambda>n name type. Inr [''v=spf1 include:x.com -all'', ''site-verification=1'']),
      randomDraw = (\<lambda>n. 0)\<rparr>"

text \<open>A scan keeps a cache entry when the entry is there and, with caching on, no worker
  awaits a check that would store under the same key.\<close>

definition awaits :: "string \<Rightarrow> worker \<Rightarrow> bool" where
  "awaits d x = (case x of Checking dd (AwaitCheck d') \<Rightarrow> d' = d | _ \<Rightarrow> False)"

definition keepsEntry :: "string \<Rightarrow> DomainCheckResult \<Rightarrow> scan \<times> client \<Rightarrow> bool" where
  "keepsEntry d r c =
     (cache (snd c) d = Some r \<and> (\<not> cacheEnabled (snd c) \<or> \<not> list_ex (awaits d) (workers (fst c))))"

text \<open>Calls for the example of the cache: none of them clears it.\<close>

definition exampleCalls :: "call list" where
  "exampleCalls = [SetMode ''offline'', CheckDomain (JSString ''gmail.com''),
                   CheckDomains [] [''example.org''], SetCacheEnabled False, SetCacheEnabled True]"

section \<open>Termination of the worker pool\<close>

lemma nextWorker_unfinished:
  "\<not> allFinished ws \<Longrightarrow> nextWorker ws < length ws \<and> ws ! nextWorker ws \<noteq> Finished"
  by (induction ws) (auto simp: allFinished_def nextWorker_def)

lemma workLeft_update:
  "i < length ws \<Longrightarrow>
   sum_list (map workLeft (ws[i := x])) + workLeft (ws ! i) = sum_list (map workLeft ws) + workLeft x"
  by (induction ws arbitrary: i) (auto split: nat.splits)

lemma resumeWorker_less:
  assumes "i < length (workers (fst c))" and "workers (fst c) ! i \<noteq> Finished"
  shows "scanWorkLeft (resumeWorker w i c) < scanWorkLeft c"
proof -
  obtain sc st where c: "c = (sc, st)" by (cases c)
  show ?thesis
  proof (cases "workers sc ! i")
    case (Checking d p)
    then show ?thesis
      using assms c workLeft_update[of i "workers sc" Pausing]
      by (auto simp: resumeWorker_def scanWorkLeft_def split: prod.splits sum.splits)
  next
    case Pausing
    then show ?thesis
      using assms c workLeft_update[of i "workers sc" Finished]
        workLeft_update[of i "workers sc"
          "Checking (hd (domainQueue sc)) (checkDomainBegin (JSString (hd (domainQueue sc))) st)"]
      by (auto simp: resumeWorker_def processNextDomain_def scanWorkLeft_def
               split: prod.splits sum.splits list.splits)
  next
    case Finished
    then show ?thesis using assms c by simp
  qed
qed

termination runPool
  apply (relation "measures [\<lambda>(w, evs, c). length evs, \<lambda>(w, evs, c). scanWorkLeft c]")
     apply simp
    apply (simp add: resumeWorker_less nextWorker_unfinished)
   apply simp
  apply simp
  done

section \<open>The security score\<close>

text \<open>
  Claim C2. For every triple of statuses the score is the sum of the weights of the three
  protocols (DMARC 40/20/0, SPF 30/15/0, DKIM 30/15/0 for ok/warning/error), it lies
  between 0 and 100, and replacing one status of the triple by a strictly better one never
  lowers it. The score is a function of the three statuses, hence deterministic.
\<close>

theorem C2_securityScore:
  "calculateSecurityScore d s k = dmarcWeight d + spfWeight s + dkimWeight k
   \<and> 0 \<le> calculateSecurityScore d s k \<and> calculateSecurityScore d s k \<le> 100
   \<and> (strictlyBetter d' d \<longrightarrow> calculateSecurityScore d s k \<le> calculateSecurityScore d' s k)
   \<and> (strictlyBetter s' s \<longrightarrow> calculateSecurityScore d s k \<le> calculateSecurityScore d s' k)
   \<and> (strictlyBetter k' k \<longrightarrow> calculateSecurityScore d s k \<le> calculateSecurityScore d s k')"
proof -
  have sum: "calculateSecurityScore a b c = dmarcWeight a + spfWeight b + dkimWeight c" for a b c
    by (cases a; cases b; cases c) (simp_all add: calculateSecurityScore_def)
  have dm: "strictlyBetter a' a \<Longrightarrow> dmarcWeight a \<le> dmarcWeight a'" for a a'
    by (cases a; cases a') (simp_all add: strictlyBetter_def)
  have sp: "strictlyBetter a' a \<Longrightarrow> spfWeight a \<le> spfWeight a'" for a a'
    by (cases a; cases a') (simp_all add: strictlyBetter_def)
  have dk: "strictlyBetter a' a \<Longrightarrow> dkimWeight a \<le> dkimWeight a'" for a a'
    by (cases a; cases a') (simp_all add: strictlyBetter_def)
  have lo: "0 \<le> dmarcWeight d \<and> 0 \<le> spfWeight s \<and> 0 \<le> dkimWeight k"
    by (cases d; cases s; cases k) simp_all
  have hi: "dmarcWeight d \<le> 40 \<and> spfWeight s \<le> 30 \<and> dkimWeight k \<le> 30"
    by (cases d; cases s; cases k) simp_all
  show ?thesis
    unfolding sum using dm[of d' d] sp[of s' s] dk[of k' k] lo hi by auto
qed

theorem C2_securityScore_witness:
  "strictlyBetter StOk StError \<and> strictlyBetter StWarning StError \<and> strictlyBetter StOk StWarning
   \<and> calculateSecurityScore StError StError StWarning = 15
   \<and> calculateSecurityScore StError StError StWarning \<le> calculateSecurityScore StOk StError StWarning
   \<and> calculateSecurityScore StError StError StWarning \<le> calculateSecurityScore StError StWarning StWarning
   \<and> calculateSecurityScore StError StError StWarning \<le> calculateSecurityScore StError StError StOk"
  using C2_securityScore[of StError StError StWarning StOk StWarning StOk]
  by (simp add: strictlyBetter_def)

section \<open>The language of the domain pattern\<close>


lemma accepts_mem: "accepts m L \<Longrightarrow> t \<in> set (m s) \<longleftrightarrow> (\<exists>u\<in>L. s = u @ t)"
  by (simp add: accepts_def)

lemma accepts_cls: "accepts (cls p) {[c] |c. p c}"
  unfolding accepts_def cls_def
proof (intro allI)
  fix s show "set (case s of [] \<Rightarrow> [] | c # t \<Rightarrow> if p c then [t] else []) = {t. \<exists>u\<in>{[c] |c. p c}. s = u @ t}"
    by (cases s) auto
qed

lemma accepts_seq:
  assumes a: "accepts a A" and b: "accepts b B"
  shows "accepts (seq a b) {u @ v |u v. u \<in> A \<and> v \<in> B}"
  unfolding accepts_def
proof (intro allI set_eqI iffI)
  fix s t assume "t \<in> set (seq a b s)"
  then obtain r where r: "r \<in> set (a s)" "t \<in> set (b r)" by (auto simp: seq_def)
  from r(1) obtain u where u: "u \<in> A" "s = u @ r" using accepts_mem[OF a] by blast
  from r(2) obtain v where v: "v \<in> B" "r = v @ t" using accepts_mem[OF b] by blast
  have "s = (u @ v) @ t" using u v by simp
  then show "t \<in> {t. \<exists>x\<in>{u @ v |u v. u \<in> A \<and> v \<in> B}. s = x @ t}" using u(1) v(1) by blast
next
  fix s t assume "t \<in> {t. \<exists>x\<in>{u @ v |u v. u \<in> A \<and> v \<in> B}. s = x @ t}"
  then obtain u v where uv: "u \<in> A" "v \<in> B" "s = (u @ v) @ t" by blast
  have "v @ t \<in> set (a s)" using accepts_mem[OF a] uv by simp
  moreover have "t \<in> set (b (v @ t))" using accepts_mem[OF b] uv by blast
  ultimately show "t \<in> set (seq a b s)" by (auto simp: seq_def)
qed

lemma set_repeat:
  assumes "accepts a A"
  shows "set (repeat a m k s) =
         {t. \<exists>us. m \<le> length us \<and> length us \<le> m + k \<and> set us \<subseteq> A \<and> s = concat us @ t}"
  using assms
proof (induction a m k s rule: repeat.induct)
  case (1 a s)
  then show ?case by auto
next
  case (2 a k s)
  note acc = accepts_mem[OF "2.prems"]
  have IH: "\<And>x. x \<in> set (a s) \<Longrightarrow> set (repeat a 0 k x) =
         {t. \<exists>us. 0 \<le> length us \<and> length us \<le> 0 + k \<and> set us \<subseteq> A \<and> x = concat us @ t}"
    using "2.IH" "2.prems" by blast
  show ?case
  proof (intro set_eqI iffI)
    fix t assume "t \<in> set (repeat a 0 (Suc k) s)"
    then consider "t = s" | x where "x \<in> set (a s)" "t \<in> set (repeat a 0 k x)" by auto
    then show "t \<in> {t. \<exists>us. 0 \<le> length us \<and> length us \<le> 0 + Suc k \<and> set us \<subseteq> A \<and> s = concat us @ t}"
    proof cases
      case 1
      then show ?thesis by (auto intro: exI[of _ "[]"])
    next
      case 2
      obtain u where u: "u \<in> A" "s = u @ x" using acc 2(1) by blast
      obtain us where us: "length us \<le> k" "set us \<subseteq> A" "x = concat us @ t"
        using IH[OF 2(1)] 2(2) by auto
      have "length (u # us) \<le> 0 + Suc k \<and> set (u # us) \<subseteq> A \<and> s = concat (u # us) @ t"
        using u us by simp
      then show ?thesis by blast
    qed
  next
    fix t assume "t \<in> {t. \<exists>us. 0 \<le> length us \<and> length us \<le> 0 + Suc k \<and> set us \<subseteq> A \<and> s = concat us @ t}"
    then obtain us where us: "length us \<le> Suc k" "set us \<subseteq> A" "s = concat us @ t" by auto
    show "t \<in> set (repeat a 0 (Suc k) s)"
    proof (cases us)
      case Nil
      then show ?thesis using us by simp
    next
      case (Cons u us')
      then have x: "concat us' @ t \<in> set (a s)" using acc us by auto
      have "t \<in> set (repeat a 0 k (concat us' @ t))"
        using IH[OF x] us Cons by auto
      then show ?thesis using x by auto
    qed
  qed
next
  case (3 a m k s)
  note acc = accepts_mem[OF "3.prems"]
  have IH: "\<And>x. x \<in> set (a s) \<Longrightarrow> set (repeat a m k x) =
         {t. \<exists>us. m \<le> length us \<and> length us \<le> m + k \<and> set us \<subseteq> A \<and> x = concat us @ t}"
    using "3.IH" "3.prems" by blast
  show ?case
  proof (intro set_eqI iffI)
    fix t assume "t \<in> set (repeat a (Suc m) k s)"
    then obtain x where x: "x \<in> set (a s)" "t \<in> set (repeat a m k x)" by auto
    obtain u where u: "u \<in> A" "s = u @ x" using acc x(1) by blast
    obtain us where us: "m \<le> length us" "length us \<le> m + k" "set us \<subseteq> A" "x = concat us @ t"
      using IH[OF x(1)] x(2) by auto
    have "Suc m \<le> length (u # us) \<and> length (u # us) \<le> Suc m + k \<and> set (u # us) \<subseteq> A \<and> s = concat (u # us) @ t"
      using u us by simp
    then show "t \<in> {t. \<exists>us. Suc m \<le> length us \<and> length us \<le> Suc m + k \<and> set us \<subseteq> A \<and> s = concat us @ t}"
      by blast
  next
    fix t assume "t \<in> {t. \<exists>us. Suc m \<le> length us \<and> length us \<le> Suc m + k \<and> set us \<subseteq> A \<and> s = concat us @ t}"
    then obtain us where us: "Suc m \<le> length us" "length us \<le> Suc m + k" "set us \<subseteq> A" "s = concat us @ t" by auto
    then obtain u us' where Cons: "us = u # us'" by (cases us) auto
    then have x: "concat us' @ t \<in> set (a s)" using acc us by auto
    have "t \<in> set (repeat a m k (concat us' @ t))"
      using IH[OF x] us Cons by auto
    then show "t \<in> set (repeat a (Suc m) k s)" using x by auto
  qed
qed


lemma length_concat_nonempty: "[] \<notin> set us \<Longrightarrow> length us \<le> length (concat us)"
proof (induction us)
  case Nil
  then show ?case by simp
next
  case (Cons u us)
  then have le: "length us \<le> length (concat us)" by auto
  from Cons.prems obtain c u' where "u = c # u'" by (cases u) auto
  then show ?case using le by simp
qed

lemma accepts_repeat:
  assumes "accepts a A"
  shows "accepts (repeat a m k) {concat us |us. m \<le> length us \<and> length us \<le> m + k \<and> set us \<subseteq> A}"
  unfolding accepts_def set_repeat[OF assms] by blast

lemma accepts_plus1:
  assumes a: "accepts a A" and ne: "[] \<notin> A"
  shows "accepts (plus1 a) {concat us |us. us \<noteq> [] \<and> set us \<subseteq> A}"
  unfolding accepts_def
proof (intro allI set_eqI iffI)
  fix s t assume "t \<in> set (plus1 a s)"
  then obtain us where us: "1 \<le> length us" "set us \<subseteq> A" "s = concat us @ t"
    unfolding plus1_def set_repeat[OF a] by blast
  then have "us \<noteq> []" by auto
  then show "t \<in> {t. \<exists>u\<in>{concat us |us. us \<noteq> [] \<and> set us \<subseteq> A}. s = u @ t}" using us by blast
next
  fix s t assume "t \<in> {t. \<exists>u\<in>{concat us |us. us \<noteq> [] \<and> set us \<subseteq> A}. s = u @ t}"
  then obtain us where us: "us \<noteq> []" "set us \<subseteq> A" "s = concat us @ t" by blast
  have "[] \<notin> set us" using us(2) ne by auto
  then have "length us \<le> length (concat us)" by (rule length_concat_nonempty)
  then have "length us \<le> 1 + length s" using us(3) by simp
  moreover have "1 \<le> length us" using us(1) by (cases us) auto
  ultimately show "t \<in> set (plus1 a s)"
    unfolding plus1_def set_repeat[OF a] using us by blast
qed

lemma concat_singletons:
  "{concat us |us. length us \<le> n \<and> set us \<subseteq> {[c] |c. p c}} = {v. length v \<le> n \<and> list_all p v}"
proof (intro set_eqI iffI)
  fix v assume "v \<in> {concat us |us. length us \<le> n \<and> set us \<subseteq> {[c] |c. p c}}"
  then obtain us where us: "v = concat us" "length us \<le> n" "set us \<subseteq> {[c] |c. p c}" by blast
  have "set us \<subseteq> {[c] |c. p c} \<Longrightarrow> length (concat us) = length us \<and> list_all p (concat us)"
    by (induction us) auto
  then show "v \<in> {v. length v \<le> n \<and> list_all p v}" using us by simp
next
  fix v assume "v \<in> {v. length v \<le> n \<and> list_all p v}"
  then have v: "length v \<le> n" "list_all p v" by auto
  have "concat (map (\<lambda>c. [c]) v) = v" by (induction v) auto
  moreover have "set (map (\<lambda>c. [c]) v) \<subseteq> {[c] |c. p c}" using v(2) by (auto simp: list_all_iff)
  moreover have "length (map (\<lambda>c. [c]) v) \<le> n" using v(1) by simp
  ultimately show "v \<in> {concat us |us. length us \<le> n \<and> set us \<subseteq> {[c] |c. p c}}"
    by (metis (mono_tags, lifting) mem_Collect_eq)
qed

lemma accepts_class_upto:
  "accepts (repeat (cls p) 0 n) {v. length v \<le> n \<and> list_all p v}"
  using accepts_repeat[OF accepts_cls, of p 0 n] concat_singletons[of n p] by simp


lemma accepts_opt:
  assumes "accepts a A"
  shows "accepts (opt a) (insert [] A)"
proof -
  have "{concat us |us. 0 \<le> length us \<and> length us \<le> 0 + 1 \<and> set us \<subseteq> A} = insert [] A"
  proof (intro set_eqI iffI)
    fix x assume "x \<in> {concat us |us. 0 \<le> length us \<and> length us \<le> 0 + 1 \<and> set us \<subseteq> A}"
    then obtain us where us: "x = concat us" "length us \<le> 1" "set us \<subseteq> A" by auto
    show "x \<in> insert [] A"
    proof (cases us)
      case Nil
      then show ?thesis using us by simp
    next
      case (Cons u us')
      then have "us' = []" using us(2) by simp
      then show ?thesis using us Cons by simp
    qed
  next
    fix x assume "x \<in> insert [] A"
    then consider "x = []" | "x \<in> A" by auto
    then show "x \<in> {concat us |us. 0 \<le> length us \<and> length us \<le> 0 + 1 \<and> set us \<subseteq> A}"
    proof cases
      case 1
      have "[] = concat [] \<and> length ([]::string list) \<le> 0 + 1 \<and> set [] \<subseteq> A" by simp
      then show ?thesis using 1 by blast
    next
      case 2
      then have "x = concat [x] \<and> length [x] \<le> 0 + 1 \<and> set [x] \<subseteq> A" by simp
      then show ?thesis by blast
    qed
  qed
  then show ?thesis using accepts_repeat[OF assms, of 0 1] by (simp add: opt_def)
qed

lemma alnumHyphen_not_dot: "alnumHyphen c \<Longrightarrow> c \<noteq> CHR ''.''"
  by (auto simp: alnumHyphen_def alnum_def)

lemma labelOk_shape:
  "labelOk l \<longleftrightarrow>
     (\<exists>c. alnum c \<and> (l = [c] \<or>
        (\<exists>v e. l = c # v @ [e] \<and> length v \<le> 61 \<and> list_all alnumHyphen v \<and> alnum e)))"
proof
  assume ok: "labelOk l"
  then obtain c x where l: "l = c # x" by (cases l) (auto simp: labelOk_def)
  have c: "alnum c" using ok l by (simp add: labelOk_def)
  show "\<exists>c. alnum c \<and> (l = [c] \<or>
        (\<exists>v e. l = c # v @ [e] \<and> length v \<le> 61 \<and> list_all alnumHyphen v \<and> alnum e))"
  proof (cases "x = []")
    case True
    then show ?thesis using c l by blast
  next
    case False
    then have x: "x = butlast x @ [last x]" by simp
    have "length l \<le> 63" using ok by (simp add: labelOk_def)
    then have "length (butlast x) \<le> 61" using l by simp
    moreover have "list_all alnumHyphen (butlast x)"
      using ok l by (auto simp: labelOk_def list_all_iff dest: in_set_butlastD)
    moreover have "alnum (last x)" using ok l False by (simp add: labelOk_def)
    ultimately show ?thesis using c l x by blast
  qed
next
  assume "\<exists>c. alnum c \<and> (l = [c] \<or>
        (\<exists>v e. l = c # v @ [e] \<and> length v \<le> 61 \<and> list_all alnumHyphen v \<and> alnum e))"
  then show "labelOk l" by (auto simp: labelOk_def alnumHyphen_def)
qed

lemma tldOk_shape:
  "labelOk t \<and> 2 \<le> length t \<longleftrightarrow>
     (\<exists>c v e. t = c # v @ [e] \<and> alnum c \<and> length v \<le> 61 \<and> list_all alnumHyphen v \<and> alnum e)"
  unfolding labelOk_shape by auto

lemma accepts_tail:
  "accepts (seq (repeat (cls alnumHyphen) 0 61) (cls alnum))
     {v @ [e] |v e. length v \<le> 61 \<and> list_all alnumHyphen v \<and> alnum e}"
proof -
  have "{u @ v |u v. u \<in> {v. length v \<le> 61 \<and> list_all alnumHyphen v} \<and> v \<in> {[c] |c. alnum c}}
      = {v @ [e] |v e. length v \<le> 61 \<and> list_all alnumHyphen v \<and> alnum e}" by blast
  then show ?thesis using accepts_seq[OF accepts_class_upto accepts_cls, of alnumHyphen 61 alnum] by simp
qed

lemma accepts_tld:
  "accepts (seq (cls alnum) (seq (repeat (cls alnumHyphen) 0 61) (cls alnum)))
     {t. labelOk t \<and> 2 \<le> length t}"
proof -
  have "{u @ v |u v. u \<in> {[c] |c. alnum c} \<and>
           v \<in> {v @ [e] |v e. length v \<le> 61 \<and> list_all alnumHyphen v \<and> alnum e}}
      = {t. labelOk t \<and> 2 \<le> length t}" (is "?L = _")
    unfolding tldOk_shape
  proof (intro set_eqI iffI)
    fix x assume "x \<in> ?L"
    then obtain c v e where "x = [c] @ v @ [e]" "alnum c" "length v \<le> 61"
      "list_all alnumHyphen v" "alnum e" by blast
    then show "x \<in> {t. \<exists>c v e. t = c # v @ [e] \<and> alnum c \<and> length v \<le> 61 \<and>
                      list_all alnumHyphen v \<and> alnum e}" by auto
  next
    fix x assume "x \<in> {t. \<exists>c v e. t = c # v @ [e] \<and> alnum c \<and> length v \<le> 61 \<and>
                      list_all alnumHyphen v \<and> alnum e}"
    then obtain c v e where x: "x = c # v @ [e]" "alnum c" "length v \<le> 61"
      "list_all alnumHyphen v" "alnum e" by blast
    have "x = [c] @ (v @ [e])" using x(1) by simp
    moreover have "[c] \<in> {[c] |c. alnum c}" using x(2) by blast
    moreover have "v @ [e] \<in> {v @ [e] |v e. length v \<le> 61 \<and> list_all alnumHyphen v \<and> alnum e}"
      using x(3,4,5) by blast
    ultimately show "x \<in> ?L" by blast
  qed
  then show ?thesis using accepts_seq[OF accepts_cls accepts_tail, of alnum] by simp
qed

lemma accepts_label_dot:
  "accepts (seq (cls alnum)
             (seq (opt (seq (repeat (cls alnumHyphen) 0 61) (cls alnum)))
                  (cls (\<lambda>c. c = CHR ''.''))))
     {l @ ''.'' |l. labelOk l}"
proof -
  let ?M = "{v @ [e] |v e. length v \<le> 61 \<and> list_all alnumHyphen v \<and> alnum e}"
  let ?D = "{[c] |c. c = CHR ''.''}"
  have 1: "accepts (seq (opt (seq (repeat (cls alnumHyphen) 0 61) (cls alnum))) (cls (\<lambda>c. c = CHR ''.'')))
             {u @ v |u v. u \<in> insert [] ?M \<and> v \<in> ?D}"
    by (rule accepts_seq[OF accepts_opt[OF accepts_tail] accepts_cls])
  have "{u @ v |u v. u \<in> {[c] |c. alnum c} \<and> v \<in> {u @ v |u v. u \<in> insert [] ?M \<and> v \<in> ?D}}
      = {l @ ''.'' |l. labelOk l}"
    unfolding labelOk_shape
  proof (intro set_eqI iffI)
    fix x assume "x \<in> {u @ v |u v. u \<in> {[c] |c. alnum c} \<and> v \<in> {u @ v |u v. u \<in> insert [] ?M \<and> v \<in> ?D}}"
    then obtain c m where x: "x = [c] @ m @ ''.''" "alnum c" "m \<in> insert [] ?M" by blast
    then have "x = (c # m) @ ''.''" by simp
    moreover have "\<exists>c'. alnum c' \<and> (c # m = [c'] \<or>
        (\<exists>v e. c # m = c' # v @ [e] \<and> length v \<le> 61 \<and> list_all alnumHyphen v \<and> alnum e))"
      using x(2,3) by blast
    ultimately show "x \<in> {l @ ''.'' |l. \<exists>c. alnum c \<and> (l = [c] \<or>
        (\<exists>v e. l = c # v @ [e] \<and> length v \<le> 61 \<and> list_all alnumHyphen v \<and> alnum e))}"
      by blast
  next
    fix x assume "x \<in> {l @ ''.'' |l. \<exists>c. alnum c \<and> (l = [c] \<or>
        (\<exists>v e. l = c # v @ [e] \<and> length v \<le> 61 \<and> list_all alnumHyphen v \<and> alnum e))}"
    then obtain c m where x: "x = (c # m) @ ''.''" "alnum c" "m \<in> insert [] ?M" by blast
    have "x = [c] @ (m @ ''.'')" using x(1) by simp
    moreover have "m @ ''.'' \<in> {u @ v |u v. u \<in> insert [] ?M \<and> v \<in> ?D}" using x(3) by blast
    moreover have "[c] \<in> {[c] |c. alnum c}" using x(2) by blast
    ultimately show "x \<in> {u @ v |u v. u \<in> {[c] |c. alnum c} \<and> v \<in> {u @ v |u v. u \<in> insert [] ?M \<and> v \<in> ?D}}"
      by blast
  qed
  then show ?thesis using accepts_seq[OF accepts_cls 1, of alnum] by simp
qed

lemma isValidDomain_language:
  "isValidDomain s \<longleftrightarrow>
     (\<exists>us t. us \<noteq> [] \<and> set us \<subseteq> {l @ ''.'' |l. labelOk l} \<and> labelOk t \<and> 2 \<le> length t \<and>
             s = concat us @ t)"
proof -
  have ne: "[] \<notin> {l @ ''.'' |l. labelOk l}" by simp
  have "accepts domainRegex
          {u @ v |u v. u \<in> {concat us |us. us \<noteq> [] \<and> set us \<subseteq> {l @ ''.'' |l. labelOk l}} \<and>
                       v \<in> {t. labelOk t \<and> 2 \<le> length t}}"
    unfolding domainRegex_def
    by (rule accepts_seq[OF accepts_plus1[OF accepts_label_dot ne] accepts_tld])
  then have "[] \<in> set (domainRegex s) \<longleftrightarrow>
      (\<exists>u\<in>{u @ v |u v. u \<in> {concat us |us. us \<noteq> [] \<and> set us \<subseteq> {l @ ''.'' |l. labelOk l}} \<and>
                       v \<in> {t. labelOk t \<and> 2 \<le> length t}}. s = u @ [])"
    by (rule accepts_mem)
  then show ?thesis unfolding isValidDomain_def test_anchored_def by blast
qed


lemma splitOn_not_Nil: "splitOn sep s \<noteq> []"
  by (induction s) auto

lemma splitOn_no_sep: "sep \<notin> set u \<Longrightarrow> splitOn sep u = [u]"
  by (induction u) auto

lemma splitOn_append: "sep \<notin> set u \<Longrightarrow> splitOn sep (u @ sep # r) = u # splitOn sep r"
  by (induction u) auto

lemma join_splitOn:
  "concat (map (\<lambda>l. l @ [sep]) (butlast (splitOn sep s))) @ last (splitOn sep s) = s"
proof (induction s)
  case Nil
  then show ?case by simp
next
  case (Cons c s)
  obtain x xs where xs: "splitOn sep s = x # xs"
    using splitOn_not_Nil[of sep s] by (cases "splitOn sep s") auto
  show ?case using Cons xs by (auto split: if_splits)
qed

lemma labelOk_no_dot: "labelOk l \<Longrightarrow> CHR ''.'' \<notin> set l"
  using alnumHyphen_not_dot by (auto simp: labelOk_def list_all_iff)

lemma splitOn_labels:
  assumes "\<forall>l\<in>set ls. CHR ''.'' \<notin> set l" and "CHR ''.'' \<notin> set t"
  shows "splitOn CHR ''.'' (concat (map (\<lambda>l. l @ ''.'') ls) @ t) = ls @ [t]"
  using assms
proof (induction ls)
  case Nil
  then show ?case by (simp add: splitOn_no_sep)
next
  case (Cons l ls)
  then have "splitOn CHR ''.'' (l @ CHR ''.'' # (concat (map (\<lambda>l. l @ ''.'') ls) @ t))
           = l # splitOn CHR ''.'' (concat (map (\<lambda>l. l @ ''.'') ls) @ t)"
    by (intro splitOn_append) simp
  then show ?case using Cons by simp
qed

lemma isValidDomain_dotted: "isValidDomain s \<longleftrightarrow> dottedDomain s"
proof
  assume "isValidDomain s"
  then obtain us t where ut: "us \<noteq> []" "set us \<subseteq> {l @ ''.'' |l. labelOk l}" "labelOk t"
      "2 \<le> length t" "s = concat us @ t"
    unfolding isValidDomain_language by blast
  have "\<exists>ls. us = map (\<lambda>l. l @ ''.'') ls \<and> list_all labelOk ls" using ut(2)
  proof (induction us)
    case Nil
    then show ?case by simp
  next
    case (Cons u us)
    then obtain ls where ls: "us = map (\<lambda>l. l @ ''.'') ls" "list_all labelOk ls" by auto
    from Cons.prems obtain l where "u = l @ ''.''" "labelOk l" by auto
    then have "u # us = map (\<lambda>l. l @ ''.'') (l # ls) \<and> list_all labelOk (l # ls)" using ls by simp
    then show ?case by (rule exI[of _ "l # ls"])
  qed
  then obtain ls where ls: "us = map (\<lambda>l. l @ ''.'') ls" "list_all labelOk ls" by blast
  have "splitOn CHR ''.'' s = ls @ [t]"
    unfolding ut(5) ls(1) using ls(2) ut(3)
    by (intro splitOn_labels) (auto simp: list_all_iff labelOk_no_dot)
  moreover have "ls \<noteq> []" using ut(1) ls(1) by auto
  ultimately show "dottedDomain s" using ls(2) ut(3,4)
    by (cases ls) (auto simp: dottedDomain_def)
next
  assume d: "dottedDomain s"
  let ?labels = "splitOn CHR ''.'' s"
  have len: "2 \<le> length ?labels" and all: "list_all labelOk ?labels" and tl: "2 \<le> length (last ?labels)"
    using d by (auto simp: dottedDomain_def Let_def)
  have ne: "?labels \<noteq> []" by (rule splitOn_not_Nil)
  let ?us = "map (\<lambda>l. l @ ''.'') (butlast ?labels)"
  have "?us \<noteq> []" using len by (cases ?labels) (auto split: if_splits)
  moreover have "set ?us \<subseteq> {l @ ''.'' |l. labelOk l}"
    using all by (auto simp: list_all_iff dest: in_set_butlastD)
  moreover have "labelOk (last ?labels)" using all ne by (simp add: list_all_iff)
  moreover have "s = concat ?us @ last ?labels" using join_splitOn[of "CHR ''.''" s] by simp
  ultimately show "isValidDomain s" unfolding isValidDomain_language using tl by blast
qed

text \<open>
  Claim C9, as the specification words it: \<open>isValidDomain\<close> is true exactly for the names of
  one or more labels of 1 to 63 characters. The pattern asks for a dot and for a last label
  of two characters or more, so neither a single label nor a name with a last label of one
  character is a valid domain.
\<close>

theorem C9_isValidDomain_counterexample:
  "\<not> (isValidDomain ''localhost'' \<longleftrightarrow> specValidDomain ''localhost'')
   \<and> \<not> (isValidDomain ''a.b'' \<longleftrightarrow> specValidDomain ''a.b'')"
  by code_simp

text \<open>
  Claim C9, amended. \<open>isValidDomain\<close> is true exactly for the names of two or more labels
  separated by dots, each label of 1 to 63 letters (of either case), digits and hyphens
  with no hyphen at its start or end, and the last label of at least two characters.
  \<open>isValidDomain\<close> is a function of the string alone.
\<close>

theorem C9_isValidDomain: "isValidDomain s \<longleftrightarrow> dottedDomain s"
  by (rule isValidDomain_dotted)

text \<open>Capital letters, a digit and an inner hyphen are accepted; an underscore, a hyphen at
  the start or the end of a label and an empty label are not; a label may have 63
  characters and not 64.\<close>

theorem C9_isValidDomain_witness:
  "dottedDomain ''A-1.Co'' \<and> \<not> dottedDomain ''a_b.co'' \<and> \<not> dottedDomain ''-a.co''
   \<and> \<not> dottedDomain ''a-.co'' \<and> \<not> dottedDomain ''a..co''
   \<and> dottedDomain (replicate 63 CHR ''a'' @ ''.co'')
   \<and> \<not> dottedDomain (replicate 64 CHR ''a'' @ ''.co'')"
proof -
  have 1: "isValidDomain ''A-1.Co''" by code_simp
  have 2: "\<not> isValidDomain ''a_b.co''" by code_simp
  have 3: "\<not> isValidDomain ''-a.co''" by code_simp
  have 4: "\<not> isValidDomain ''a-.co''" by code_simp
  have 5: "\<not> isValidDomain ''a..co''" by code_simp
  have 6: "isValidDomain (replicate 63 CHR ''a'' @ ''.co'')" by code_simp
  have 7: "\<not> isValidDomain (replicate 64 CHR ''a'' @ ''.co'')" by code_simp
  show ?thesis
    using 1 2 3 4 5 6 7 C9_isValidDomain[of "''A-1.Co''"] C9_isValidDomain[of "''a_b.co''"]
      C9_isValidDomain[of "''-a.co''"] C9_isValidDomain[of "''a-.co''"] C9_isValidDomain[of "''a..co''"]
      C9_isValidDomain[of "replicate 63 CHR ''a'' @ ''.co''"]
      C9_isValidDomain[of "replicate 64 CHR ''a'' @ ''.co''"]
    by blast
qed

section \<open>What the string searches find\<close>

text \<open>\<open>str_includes\<close> is containment as a contiguous piece.\<close>

lemma startsWith_iff: "startsWith s t \<longleftrightarrow> (\<exists>post. s = t @ post)"
  by (induction s t rule: startsWith.induct) auto

lemma str_includes_iff: "str_includes s t \<longleftrightarrow> (\<exists>pre post. s = pre @ t @ post)"
proof (induction s)
  case Nil
  then show ?case by auto
next
  case (Cons c s)
  show ?case
  proof
    assume "str_includes (c # s) t"
    then consider "startsWith (c # s) t" | "str_includes s t" by auto
    then show "\<exists>pre post. c # s = pre @ t @ post"
    proof cases
      case 1
      then obtain post where "c # s = [] @ t @ post" using startsWith_iff by auto
      then show ?thesis by blast
    next
      case 2
      then obtain pre post where "s = pre @ t @ post" using Cons by blast
      then have "c # s = (c # pre) @ t @ post" by simp
      then show ?thesis by blast
    qed
  next
    assume "\<exists>pre post. c # s = pre @ t @ post"
    then obtain pre post where p: "c # s = pre @ t @ post" by blast
    show "str_includes (c # s) t"
    proof (cases pre)
      case Nil
      then have "startsWith (c # s) t" using p startsWith_iff by auto
      then show ?thesis by simp
    next
      case (Cons a pre')
      then have "s = pre' @ t @ post" using p by simp
      then have "str_includes s t" using Cons.IH by blast
      then show ?thesis by simp
    qed
  qed
qed

text \<open>The match of \<^verbatim>\<open>/key(class+)/i\<close>: group 1 is the value of the leftmost tag.\<close>

lemma lit_i_result:
  "lit_i key s =
     (if length key \<le> length s \<and> toLowerCase (take (length key) s) = toLowerCase key
      then [drop (length key) s] else [])"
proof (induction key arbitrary: s)
  case Nil
  then show ?case by (simp add: lit_i_def)
next
  case (Cons c key)
  have step: "lit_i (c # key) u = seq (cls (\<lambda>x. toLowerChar x = toLowerChar c)) (lit_i key) u" for u
    by (simp add: lit_i_def)
  show ?case
  proof (cases s)
    case Nil
    then show ?thesis by (simp add: step seq_def cls_def)
  next
    case (Cons x t)
    show ?thesis
    proof (cases "toLowerChar x = toLowerChar c")
      case True
      then have "lit_i (c # key) s = lit_i key t" using Cons by (simp add: step seq_def cls_def)
      then show ?thesis using Cons.IH[of t] Cons True by (simp add: toLowerCase_def)
    next
      case False
      then have "lit_i (c # key) s = []" using Cons by (simp add: step seq_def cls_def)
      then show ?thesis using Cons False by (simp add: toLowerCase_def)
    qed
  qed
qed

lemma repeat_cls_first:
  "repeat (cls p) 0 k s \<noteq> [] \<and>
   (length (takeWhile p s) \<le> k \<longrightarrow> hd (repeat (cls p) 0 k s) = dropWhile p s)"
proof (induction k arbitrary: s)
  case 0
  have "takeWhile p s = [] \<Longrightarrow> dropWhile p s = s"
    by (metis append_Nil takeWhile_dropWhile_id)
  then show ?case by auto
next
  case (Suc k)
  show ?case
  proof (cases s)
    case Nil
    then show ?thesis by (simp add: cls_def)
  next
    case (Cons c t)
    then show ?thesis using Suc[of t] by (simp add: cls_def)
  qed
qed

lemma plus1_cls:
  "plus1 (cls p) u =
     (case u of [] \<Rightarrow> [] | c # t \<Rightarrow> if p c then repeat (cls p) 0 (length u) t else [])"
proof -
  have "repeat (cls p) 1 k u = concat (map (repeat (cls p) 0 k) (cls p u))" for k
    using repeat.simps(3)[of "cls p" 0 k u] by simp
  then show ?thesis by (cases u) (simp_all add: plus1_def cls_def)
qed

lemma tag_matcher:
  "seq (lit_i key) (plus1 (cls p)) s =
     (if keyTextAt key p s then repeat (cls p) 0 (length s - length key) (drop (Suc (length key)) s) else [])"
proof (cases "length key \<le> length s \<and> toLowerCase (take (length key) s) = toLowerCase key")
  case False
  then show ?thesis by (auto simp: seq_def lit_i_result keyTextAt_def)
next
  case True
  show ?thesis
  proof (cases "drop (length key) s")
    case Nil
    then show ?thesis using True by (simp add: seq_def lit_i_result keyTextAt_def plus1_cls)
  next
    case (Cons c t)
    then have l: "length key < length s" by (metis drop_eq_Nil2 list.distinct(1) not_le)
    have c: "s ! length key = c" using Cons l by (metis nth_via_drop)
    have t: "drop (Suc (length key)) s = t" using Cons by (metis drop_Suc tl_drop list.sel(3))
    have n: "length (drop (length key) s) = length s - length key" by simp
    show ?thesis using True l c t n Cons
      by (simp add: seq_def lit_i_result keyTextAt_def plus1_cls del: length_drop)
  qed
qed

lemma matchGroup1_textValueAfter: "matchGroup1 key p s = textValueAfter key p s"
proof -
  let ?r = "seq (lit_i key) (plus1 (cls p))"
  have at: "keyTextAt key p s \<Longrightarrow>
        (case ?r s of [] \<Rightarrow> None | t # ts \<Rightarrow> Some (drop (length key) (take (length s - length t) s)))
         = Some (takeWhile p (drop (length key) s))" for s
  proof -
    assume a: "keyTextAt key p s"
    let ?u = "drop (Suc (length key)) s"
    let ?k = "length s - length key"
    have l: "length key < length s" and c: "p (s ! length key)" using a by (auto simp: keyTextAt_def)
    have ne: "repeat (cls p) 0 ?k ?u \<noteq> []" using repeat_cls_first[of p ?k ?u] by blast
    have "length (takeWhile p ?u) \<le> length ?u" by (rule length_takeWhile_le)
    then have "length (takeWhile p ?u) \<le> ?k" by simp
    then have h: "hd (repeat (cls p) 0 ?k ?u) = dropWhile p ?u" using repeat_cls_first[of p ?k ?u] by blast
    obtain t ts where r: "repeat (cls p) 0 ?k ?u = t # ts" using ne by (cases "repeat (cls p) 0 ?k ?u") auto
    then have t: "t = dropWhile p ?u" using h by simp
    have d: "drop (length key) s = s ! length key # ?u" using l by (simp add: Cons_nth_drop_Suc)
    have tw: "takeWhile p (drop (length key) s) = s ! length key # takeWhile p ?u" using d c by simp
    have len: "length s - length t = length key + Suc (length (takeWhile p ?u))"
    proof -
      have "length (takeWhile p ?u) + length (dropWhile p ?u) = length ?u"
        by (metis length_append takeWhile_dropWhile_id)
      then show ?thesis using t l by simp
    qed
    have "drop (length key) (take (length s - length t) s)
          = take (Suc (length (takeWhile p ?u))) (drop (length key) s)"
      unfolding len by (simp add: drop_take)
    also have "\<dots> = s ! length key # take (length (takeWhile p ?u)) ?u" using d by simp
    also have "take (length (takeWhile p ?u)) ?u = takeWhile p ?u"
      by (metis append_eq_conv_conj takeWhile_dropWhile_id)
    finally show ?thesis using a r tw by (simp add: tag_matcher)
  qed
  have "map_option (drop (length key)) (match0 ?r s) = textValueAfter key p s"
  proof (induction s)
    case Nil
    then show ?case by (simp add: tag_matcher keyTextAt_def)
  next
    case (Cons c s)
    show ?case
    proof (cases "keyTextAt key p (c # s)")
      case True
      obtain t ts where r: "?r (c # s) = t # ts"
        using at[OF True] by (cases "?r (c # s)") auto
      then show ?thesis using at[OF True] True by simp
    next
      case False
      then show ?thesis using Cons by (simp add: tag_matcher)
    qed
  qed
  then show ?thesis by (simp add: matchGroup1_def)
qed

section \<open>The DMARC analysis\<close>

text \<open>What \<^verbatim>\<open>_checkDmarc\<close> computes from a list of records, in terms of the texts its patterns
  find.\<close>

lemma checkDmarcRecords_found:
  assumes "find (\<lambda>r. str_includes r ''v=DMARC1'') recs = Some r"
  shows "checkDmarcRecords recs =
          \<lparr>dmarc_status = (if matchedWarning r then StWarning else StOk),
           dmarc_record = r, dmarc_policy = matchedPolicy r, dmarc_error = None\<rparr>"
proof -
  have "recs \<noteq> []" using assms by auto
  then show ?thesis using assms
    by (simp add: checkDmarcRecords_def matchedWarning_def matchedPolicy_def matchedPct_def Let_def
             matchGroup1_textValueAfter split: option.splits)
qed

lemma checkDmarcRecords_missing:
  assumes "find (\<lambda>r. str_includes r ''v=DMARC1'') recs = None"
  shows "checkDmarcRecords recs = dmarcNotFound"
  using assms by (simp add: checkDmarcRecords_def)

lemma checkDmarc_resolved:
  "dnsAnswer w (dnsCalls st) (''_dmarc.'' @ d) ''TXT'' = Inr recs \<Longrightarrow>
   fst (checkDmarc w d st) = checkDmarcRecords recs"
  by (simp add: checkDmarc_def dnsLookup_def)

text \<open>On the records of the specification's examples the analysis and the specification's
  wording agree: ok with policy \<^verbatim>\<open>reject\<close>; warning for \<^verbatim>\<open>pct=50\<close>, for a missing
  \<^verbatim>\<open>rua=\<close> and for the policy \<^verbatim>\<open>none\<close>; error without a DMARC record.\<close>

lemma checkDmarcRecords_example_ok:
  "checkDmarcRecords [''v=DMARC1; p=reject; rua=mailto:a@b.com; pct=100'']
     = \<lparr>dmarc_status = StOk, dmarc_record = ''v=DMARC1; p=reject; rua=mailto:a@b.com; pct=100'',
        dmarc_policy = ''reject'', dmarc_error = None\<rparr>
   \<and> specDmarc [''v=DMARC1; p=reject; rua=mailto:a@b.com; pct=100'']
     = \<lparr>dmarc_status = StOk, dmarc_record = ''v=DMARC1; p=reject; rua=mailto:a@b.com; pct=100'',
        dmarc_policy = ''reject'', dmarc_error = None\<rparr>"
  by code_simp

lemma checkDmarcRecords_example_pct:
  "checkDmarcRecords [''site-verification=1'', ''v=DMARC1; P=Reject; rua=mailto:a@b.com; pct=50'']
     = \<lparr>dmarc_status = StWarning, dmarc_record = ''v=DMARC1; P=Reject; rua=mailto:a@b.com; pct=50'',
        dmarc_policy = ''reject'', dmarc_error = None\<rparr>
   \<and> specDmarc [''site-verification=1'', ''v=DMARC1; P=Reject; rua=mailto:a@b.com; pct=50'']
     = \<lparr>dmarc_status = StWarning, dmarc_record = ''v=DMARC1; P=Reject; rua=mailto:a@b.com; pct=50'',
        dmarc_policy = ''reject'', dmarc_error = None\<rparr>"
  by code_simp

lemma checkDmarcRecords_example_rua:
  "checkDmarcRecords [''v=DMARC1; p=reject; pct=100'']
     = \<lparr>dmarc_status = StWarning, dmarc_record = ''v=DMARC1; p=reject; pct=100'',
        dmarc_policy = ''reject'', dmarc_error = None\<rparr>
   \<and> specDmarc [''v=DMARC1; p=reject; pct=100'']
     = \<lparr>dmarc_status = StWarning, dmarc_record = ''v=DMARC1; p=reject; pct=100'',
        dmarc_policy = ''reject'', dmarc_error = None\<rparr>"
  by code_simp

lemma checkDmarcRecords_example_none:
  "checkDmarcRecords [''v=DMARC1; p=NONE; rua=mailto:a@b.com; pct=100'']
     = \<lparr>dmarc_status = StWarning, dmarc_record = ''v=DMARC1; p=NONE; rua=mailto:a@b.com; pct=100'',
        dmarc_policy = ''none'', dmarc_error = None\<rparr>
   \<and> specDmarc [''v=DMARC1; p=NONE; rua=mailto:a@b.com; pct=100'']
     = \<lparr>dmarc_status = StWarning, dmarc_record = ''v=DMARC1; p=NONE; rua=mailto:a@b.com; pct=100'',
        dmarc_policy = ''none'', dmarc_error = None\<rparr>"
  by code_simp

lemma checkDmarcRecords_example_error:
  "checkDmarcRecords [''v=spf1 -all''] = dmarcNotFound \<and> specDmarc [''v=spf1 -all''] = dmarcNotFound
   \<and> checkDmarcRecords [] = dmarcNotFound \<and> specDmarc [] = dmarcNotFound"
  by code_simp

text \<open>
  Claim C3 at two records in which the tag \<^verbatim>\<open>sp\<close> (the policy for subdomains) comes before
  or without the tag \<^verbatim>\<open>p\<close>. The pattern for the policy has nothing that ties \<^verbatim>\<open>p=\<close> to
  the start of a tag, so it matches inside \<^verbatim>\<open>sp=\<close>. For
  \<^verbatim>\<open>v=DMARC1; sp=none; p=reject; rua=mailto:a@b.com; pct=100\<close> the analysis gives the policy
  \<^verbatim>\<open>none\<close> and the status warning, where the claim gives the policy \<^verbatim>\<open>reject\<close> and, as
  no condition for a warning holds, the status ok. For
  \<^verbatim>\<open>v=DMARC1; sp=reject; rua=mailto:a@b.com; pct=100\<close>, which has no tag \<^verbatim>\<open>p\<close>, the analysis
  gives the policy \<^verbatim>\<open>reject\<close> and the status ok, where the claim gives an empty policy and
  the status warning.
\<close>

theorem C3_checkDmarc_subdomain_policy:
  "fst (checkDmarc (txtDns [''v=DMARC1; sp=none; p=reject; rua=mailto:a@b.com; pct=100''])
          ''x.com'' newClient)
     = \<lparr>dmarc_status = StWarning,
        dmarc_record = ''v=DMARC1; sp=none; p=reject; rua=mailto:a@b.com; pct=100'',
        dmarc_policy = ''none'', dmarc_error = None\<rparr>
   \<and> specDmarc [''v=DMARC1; sp=none; p=reject; rua=mailto:a@b.com; pct=100'']
     = \<lparr>dmarc_status = StOk,
        dmarc_record = ''v=DMARC1; sp=none; p=reject; rua=mailto:a@b.com; pct=100'',
        dmarc_policy = ''reject'', dmarc_error = None\<rparr>
   \<and> fst (checkDmarc (txtDns [''v=DMARC1; sp=reject; rua=mailto:a@b.com; pct=100''])
          ''x.com'' newClient)
     = \<lparr>dmarc_status = StOk,
        dmarc_record = ''v=DMARC1; sp=reject; rua=mailto:a@b.com; pct=100'',
        dmarc_policy = ''reject'', dmarc_error = None\<rparr>
   \<and> specDmarc [''v=DMARC1; sp=reject; rua=mailto:a@b.com; pct=100'']
     = \<lparr>dmarc_status = StWarning,
        dmarc_record = ''v=DMARC1; sp=reject; rua=mailto:a@b.com; pct=100'',
        dmarc_policy = [], dmarc_error = None\<rparr>"
  by code_simp

section \<open>The SPF analysis\<close>

lemma checkSpfRecords_found:
  assumes "find (\<lambda>r. str_includes r ''v=spf1'') recs = Some r"
  shows "checkSpfRecords recs =
          \<lparr>spf_status = (if str_includes r ''?all'' then StWarning
                          else if str_includes r ''+all'' then StWarning
                          else if \<not> str_includes r ''-all'' \<and> \<not> str_includes r ''~all'' then StWarning
                          else StOk),
           spf_record = r, spf_error = None\<rparr>"
proof -
  have "recs \<noteq> []" using assms by auto
  then show ?thesis using assms by (simp add: checkSpfRecords_def)
qed

text \<open>
  Claim C4. When the lookup of the domain resolves with a list of TXT records, the SPF
  analysis is decided by that list: with no record containing \<^verbatim>\<open>v=spf1\<close> (so also for the
  empty list) the status is error. Otherwise the first such record is the SPF record and
  its status is warning if it contains \<^verbatim>\<open>?all\<close>, else warning if it contains \<^verbatim>\<open>+all\<close>,
  else warning if it contains neither \<^verbatim>\<open>-all\<close> nor \<^verbatim>\<open>~all\<close>, else ok.
\<close>

theorem C4_checkSpf:
  "(dnsAnswer w (dnsCalls st) d ''TXT'' = Inr recs \<longrightarrow> fst (checkSpf w d st) = checkSpfRecords recs)
   \<and> checkSpfRecords recs =
     (case find (\<lambda>r. str_includes r ''v=spf1'') recs of
        None \<Rightarrow> \<lparr>spf_status = StError, spf_record = [], spf_error = None\<rparr>
      | Some r \<Rightarrow>
          \<lparr>spf_status = (if str_includes r ''?all'' then StWarning
                          else if str_includes r ''+all'' then StWarning
                          else if \<not> str_includes r ''-all'' \<and> \<not> str_includes r ''~all'' then StWarning
                          else StOk),
           spf_record = r, spf_error = None\<rparr>)"
proof -
  have "dnsAnswer w (dnsCalls st) d ''TXT'' = Inr recs \<Longrightarrow> fst (checkSpf w d st) = checkSpfRecords recs"
    by (simp add: checkSpf_def dnsLookup_def)
  moreover have "checkSpfRecords recs =
     (case find (\<lambda>r. str_includes r ''v=spf1'') recs of
        None \<Rightarrow> \<lparr>spf_status = StError, spf_record = [], spf_error = None\<rparr>
      | Some r \<Rightarrow>
          \<lparr>spf_status = (if str_includes r ''?all'' then StWarning
                          else if str_includes r ''+all'' then StWarning
                          else if \<not> str_includes r ''-all'' \<and> \<not> str_includes r ''~all'' then StWarning
                          else StOk),
           spf_record = r, spf_error = None\<rparr>)"
  proof (cases "find (\<lambda>r. str_includes r ''v=spf1'') recs")
    case None
    then show ?thesis by (simp add: checkSpfRecords_def spfNotFound_def)
  next
    case (Some r)
    then show ?thesis using checkSpfRecords_found[OF Some] by simp
  qed
  ultimately show ?thesis by blast
qed

text \<open>An answer of two records, the second an SPF record ending in \<^verbatim>\<open>+all\<close>: warning.\<close>

theorem C4_checkSpf_witness:
  "dnsAnswer (txtDns [''site-verification=1'', ''v=spf1 include:_spf.x.com +all'']) (dnsCalls newClient) ''x.com'' ''TXT''
     = Inr [''site-verification=1'', ''v=spf1 include:_spf.x.com +all'']
   \<and> fst (checkSpf (txtDns [''site-verification=1'', ''v=spf1 include:_spf.x.com +all'']) ''x.com'' newClient)
     = \<lparr>spf_status = StWarning, spf_record = ''v=spf1 include:_spf.x.com +all'', spf_error = None\<rparr>"
proof -
  have a: "dnsAnswer (txtDns [''site-verification=1'', ''v=spf1 include:_spf.x.com +all'']) (dnsCalls newClient) ''x.com'' ''TXT''
     = Inr [''site-verification=1'', ''v=spf1 include:_spf.x.com +all'']"
    by (simp add: txtDns_def)
  have f: "find (\<lambda>r. str_includes r ''v=spf1'') [''site-verification=1'', ''v=spf1 include:_spf.x.com +all'']
      = Some ''v=spf1 include:_spf.x.com +all''" by code_simp
  have q: "\<not> str_includes ''v=spf1 include:_spf.x.com +all'' ''?all''" by code_simp
  have p: "str_includes ''v=spf1 include:_spf.x.com +all'' ''+all''" by code_simp
  show ?thesis
    using C4_checkSpf[of "txtDns [''site-verification=1'', ''v=spf1 include:_spf.x.com +all'']" newClient "''x.com''"
        "[''site-verification=1'', ''v=spf1 include:_spf.x.com +all'']"] a
    by (simp only: f q p option.case if_True if_False simp_thms)
qed

section \<open>The DKIM analysis\<close>

lemma dkimLoop_found:
  "dkimLoop w d selectors found st =
     (found @ foundFrom w d (dnsCalls st) selectors, st\<lparr>dnsCalls := dnsCalls st + length selectors\<rparr>)"
proof (induction selectors arbitrary: found st)
  case Nil
  then show ?case by (simp add: foundFrom_def)
next
  case (Cons selector rest)
  show ?case
    by (cases "dnsAnswer w (dnsCalls st) (selector @ ''._domainkey.'' @ d) ''TXT''")
       (simp_all add: Cons dnsLookup_def foundFrom_def selectorFound_def dkimData_def list_ex_iff)
qed

text \<open>
  Claim C5. The DKIM analysis makes six lookups, for the selectors default, google,
  selector1, selector2, k1 and dkim in this order, each at
  \<^verbatim>\<open><selector>._domainkey.<domain>\<close>. A selector is found when its lookup resolves with a
  record containing \<^verbatim>\<open>v=DKIM1\<close>, \<^verbatim>\<open>k=rsa\<close> or \<^verbatim>\<open>p=\<close>; a lookup that fails counts as not
  found and the other selectors are still probed. The result lists the found selectors in
  the order of probing, with status error for none, warning for one and ok for two or more.
\<close>

theorem C5_checkDkim:
  "checkDkim w d st =
     (let found = foundFrom w d (dnsCalls st)
                    [''default'', ''google'', ''selector1'', ''selector2'', ''k1'', ''dkim'']
      in (\<lparr>dkim_status = (if length found = 0 then StError
                           else if length found = 1 then StWarning else StOk),
           dkim_selectors = found, dkim_error = None\<rparr>,
          st\<lparr>dnsCalls := dnsCalls st + 6\<rparr>))"
proof -
  have "(if length xs > 0 then (if length xs > 1 then StOk else StWarning) else StError)
      = (if length xs = 0 then StError else if length xs = 1 then StWarning else StOk)"
    for xs :: "string list"
    by (cases xs) auto
  then show ?thesis
    by (simp add: checkDkim_def dkimLoop_found commonSelectors_def Let_def)
qed

text \<open>Three answers of the DNS. The lookup for \<^verbatim>\<open>default\<close> fails, the record of \<^verbatim>\<open>google\<close>
  has all three marks, \<^verbatim>\<open>selector1\<close> has \<^verbatim>\<open>v=DKIM1\<close> in its second record, the record of
  \<^verbatim>\<open>selector2\<close> has no mark, \<^verbatim>\<open>k1\<close> has \<^verbatim>\<open>k=rsa\<close> and \<^verbatim>\<open>dkim\<close> has no record: ok, with
  three selectors in the order of probing. Only \<^verbatim>\<open>k1\<close> has a record, with \<^verbatim>\<open>p=\<close>: warning.
  Every selector has records and none has a mark: error.\<close>

theorem C5_checkDkim_witness:
  "fst (checkDkim dkimDns ''x.com'' newClient)
     = \<lparr>dkim_status = StOk, dkim_selectors = [''google'', ''selector1'', ''k1''], dkim_error = None\<rparr>
   \<and> fst (checkDkim dkimOneDns ''x.com'' newClient)
     = \<lparr>dkim_status = StWarning, dkim_selectors = [''k1''], dkim_error = None\<rparr>
   \<and> fst (checkDkim dkimNoneDns ''x.com'' newClient)
     = \<lparr>dkim_status = StError, dkim_selectors = [], dkim_error = None\<rparr>"
proof -
  have 1: "foundFrom dkimDns ''x.com'' (dnsCalls newClient)
          [''default'', ''google'', ''selector1'', ''selector2'', ''k1'', ''dkim'']
        = [''google'', ''selector1'', ''k1'']"
    by code_simp
  have 2: "foundFrom dkimOneDns ''x.com'' (dnsCalls newClient)
          [''default'', ''google'', ''selector1'', ''selector2'', ''k1'', ''dkim''] = [''k1'']"
    by code_simp
  have 3: "foundFrom dkimNoneDns ''x.com'' (dnsCalls newClient)
          [''default'', ''google'', ''selector1'', ''selector2'', ''k1'', ''dkim''] = []"
    by code_simp
  show ?thesis
    using C5_checkDkim[of dkimDns "''x.com''" newClient] C5_checkDkim[of dkimOneDns "''x.com''" newClient]
      C5_checkDkim[of dkimNoneDns "''x.com''" newClient]
    by (simp add: 1 2 3)
qed

section \<open>Availability of the offline mode\<close>

text \<open>
  Claim C6, as the specification words it: the check is true if and only if the test lookup
  returns a non-empty list. On a lookup that resolves with the empty list the check is true.
\<close>

theorem C6_offlineAvailability_counterexample:
  "fst (checkOfflineModeAvailability emptyDns newClient)
   \<and> dnsAnswer emptyDns (dnsCalls newClient) ''example.com'' ''TXT'' = Inr []"
  by (simp add: checkOfflineModeAvailability_def dnsLookup_def emptyDns_def)

text \<open>
  Claim C6, amended. The availability check of the offline mode makes one TXT lookup for
  \<^verbatim>\<open>example.com\<close> and is true if and only if that lookup resolves, with records or without;
  it is false when the lookup fails.
\<close>

theorem C6_offlineAvailability:
  "(fst (checkOfflineModeAvailability w st) \<longleftrightarrow>
      (\<exists>recs. dnsAnswer w (dnsCalls st) ''example.com'' ''TXT'' = Inr recs))
   \<and> snd (checkOfflineModeAvailability w st) = st\<lparr>dnsCalls := dnsCalls st + 1\<rparr>"
  by (cases "dnsAnswer w (dnsCalls st) ''example.com'' ''TXT''")
     (simp_all add: checkOfflineModeAvailability_def dnsLookup_def)

text \<open>True on the empty answer, false on a failing lookup.\<close>

theorem C6_offlineAvailability_witness:
  "fst (checkOfflineModeAvailability emptyDns newClient)
   \<and> \<not> fst (checkOfflineModeAvailability failingDns newClient)"
  using C6_offlineAvailability[of emptyDns newClient] C6_offlineAvailability[of failingDns newClient]
  by (simp add: emptyDns_def failingDns_def)

section \<open>Checking one domain never rejects\<close>

text \<open>What a check of the current mode does to the client: it counts its lookups and draws.\<close>

lemma getMxRecords_state: "snd (getMxRecords w d st) = st\<lparr>dnsCalls := dnsCalls st + 1\<rparr>"
  by (cases "dnsAnswer w (dnsCalls st) d ''MX''") (simp_all add: getMxRecords_def dnsLookup_def)

lemma checkDmarc_state: "snd (checkDmarc w d st) = st\<lparr>dnsCalls := dnsCalls st + 1\<rparr>"
  by (cases "dnsAnswer w (dnsCalls st) (''_dmarc.'' @ d) ''TXT''") (simp_all add: checkDmarc_def dnsLookup_def)

lemma checkSpf_state: "snd (checkSpf w d st) = st\<lparr>dnsCalls := dnsCalls st + 1\<rparr>"
  by (cases "dnsAnswer w (dnsCalls st) d ''TXT''") (simp_all add: checkSpf_def dnsLookup_def)

lemma checkDkim_state: "snd (checkDkim w d st) = st\<lparr>dnsCalls := dnsCalls st + 6\<rparr>"
  by (simp add: checkDkim_def dkimLoop_found commonSelectors_def Let_def)

lemma checkDomainOffline_shape:
  "\<exists>r. checkDomainOffline w d st = (Inr r, st\<lparr>dnsCalls := dnsCalls st + 9\<rparr>) \<and> domain r = d \<and> error r = None"
proof -
  obtain m s1 where 1: "getMxRecords w d st = (m, s1)" by (cases "getMxRecords w d st")
  obtain a s2 where 2: "checkDmarc w d s1 = (a, s2)" by (cases "checkDmarc w d s1")
  obtain b s3 where 3: "checkSpf w d s2 = (b, s3)" by (cases "checkSpf w d s2")
  obtain c s4 where 4: "checkDkim w d s3 = (c, s4)" by (cases "checkDkim w d s3")
  have "s1 = st\<lparr>dnsCalls := dnsCalls st + 1\<rparr>" using getMxRecords_state[of w d st] 1 by simp
  moreover have "s2 = s1\<lparr>dnsCalls := dnsCalls s1 + 1\<rparr>" using checkDmarc_state[of w d s1] 2 by simp
  moreover have "s3 = s2\<lparr>dnsCalls := dnsCalls s2 + 1\<rparr>" using checkSpf_state[of w d s2] 3 by simp
  moreover have "s4 = s3\<lparr>dnsCalls := dnsCalls s3 + 6\<rparr>" using checkDkim_state[of w d s3] 4 by simp
  ultimately have "s4 = st\<lparr>dnsCalls := dnsCalls st + 9\<rparr>" by simp
  then show ?thesis by (simp add: checkDomainOffline_def 1 2 3 4)
qed

lemma simulateDomainCheck_shape:
  "\<exists>r n. simulateDomainCheck w d st = (Inr r, st\<lparr>randomCalls := n\<rparr>) \<and> domain r = d \<and> error r = None"
  by (auto simp: simulateDomainCheck_def randomItem_def Let_def)

lemma modeCheck_shape:
  "\<exists>r n m. modeCheck w d st =
      (Inr r, st\<lparr>dnsCalls := n, randomCalls := m, strategyCalls := strategyCalls st + 1\<rparr>)
    \<and> domain r = d \<and> error r = None"
proof -
  let ?st = "st\<lparr>strategyCalls := strategyCalls st + 1\<rparr>"
  have "modeCheck w d st = checkDomainOffline w d ?st \<or> modeCheck w d st = simulateDomainCheck w d ?st"
    by (simp add: modeCheck_def checkDomainViaApi_def checkDomainViaWeb_def Let_def)
  then consider (off) "modeCheck w d st = checkDomainOffline w d ?st"
    | (sim) "modeCheck w d st = simulateDomainCheck w d ?st" by blast
  then show ?thesis
  proof cases
    case off
    moreover obtain r where "checkDomainOffline w d ?st = (Inr r, ?st\<lparr>dnsCalls := dnsCalls ?st + 9\<rparr>)"
        "domain r = d" "error r = None"
      using checkDomainOffline_shape[of w d ?st] by blast
    moreover have "?st\<lparr>dnsCalls := dnsCalls ?st + 9\<rparr>
        = st\<lparr>dnsCalls := dnsCalls st + 9, randomCalls := randomCalls st, strategyCalls := strategyCalls st + 1\<rparr>"
      by simp
    ultimately show ?thesis by metis
  next
    case sim
    moreover obtain r n where "simulateDomainCheck w d ?st = (Inr r, ?st\<lparr>randomCalls := n\<rparr>)"
        "domain r = d" "error r = None"
      using simulateDomainCheck_shape[of w d ?st] by blast
    moreover have "?st\<lparr>randomCalls := n\<rparr>
        = st\<lparr>dnsCalls := dnsCalls st, randomCalls := n, strategyCalls := strategyCalls st + 1\<rparr>"
      by simp
    ultimately show ?thesis by metis
  qed
qed

lemma checkDomainEnd_resolves: "\<exists>r st'. checkDomainEnd w p st = (Inr r, st')"
proof (cases p)
  case (Resolved r)
  then show ?thesis by (simp add: checkDomainEnd_def)
next
  case (AwaitCheck d)
  obtain r n m where "modeCheck w d st =
      (Inr r, st\<lparr>dnsCalls := n, randomCalls := m, strategyCalls := strategyCalls st + 1\<rparr>)"
    using modeCheck_shape[of w d st] by blast
  then show ?thesis using AwaitCheck by (simp add: checkDomainEnd_def)
qed

text \<open>
  Claim C10. For every value passed to it, \<open>checkDomain\<close> resolves with a result and never
  rejects. A falsy or non-string value (undefined, null, the empty string, a number) gives
  the error result for the domain \<^verbatim>\<open>unknown\<close>, and a string that is not a valid domain after
  trimming and lower-casing gives the error result for that string; neither changes the
  client. Every error result has the three statuses error, empty record, policy and
  selectors, no mail exchangers and score 0.
\<close>

theorem C10_checkDomain_total:
  "(\<exists>r st'. checkDomain w v st = (Inr r, st'))
   \<and> (falsy v \<or> typeof v \<noteq> ''string'' \<longrightarrow>
        checkDomain w v st = (Inr (getErrorResult ''unknown'' msgNoDomain), st))
   \<and> (\<not> (falsy v \<or> typeof v \<noteq> ''string'') \<and> \<not> isValidDomain (toLowerCase (trim (stringOf v))) \<longrightarrow>
        checkDomain w v st = (Inr (getErrorResult (toLowerCase (trim (stringOf v))) msgInvalidFormat), st))
   \<and> (let e = getErrorResult d msg
      in domain e = d \<and> error e = Some msg
         \<and> dmarc_status (dmarc e) = StError \<and> dmarc_record (dmarc e) = [] \<and> dmarc_policy (dmarc e) = []
         \<and> spf_status (spf e) = StError \<and> spf_record (spf e) = []
         \<and> dkim_status (dkim e) = StError \<and> dkim_selectors (dkim e) = []
         \<and> mx e = [] \<and> securityScore e = 0)"
proof -
  have 1: "\<exists>r st'. checkDomain w v st = (Inr r, st')"
    unfolding checkDomain_def by (rule checkDomainEnd_resolves)
  have 2: "falsy v \<or> typeof v \<noteq> ''string'' \<Longrightarrow>
        checkDomain w v st = (Inr (getErrorResult ''unknown'' msgNoDomain), st)"
    by (simp add: checkDomain_def checkDomainBegin_def checkDomainEnd_def)
  have 3: "\<not> (falsy v \<or> typeof v \<noteq> ''string'') \<and> \<not> isValidDomain (toLowerCase (trim (stringOf v))) \<Longrightarrow>
        checkDomain w v st = (Inr (getErrorResult (toLowerCase (trim (stringOf v))) msgInvalidFormat), st)"
    by (simp add: checkDomain_def checkDomainBegin_def checkDomainEnd_def Let_def)
  show ?thesis using 1 2 3 by (simp add: getErrorResult_def Let_def)
qed

text \<open>Null, the empty string, a number, and a string that is not a domain.\<close>

theorem C10_checkDomain_total_witness:
  "checkDomain emptyDns JSNull newClient = (Inr (getErrorResult ''unknown'' msgNoDomain), newClient)
   \<and> checkDomain emptyDns (JSString []) newClient = (Inr (getErrorResult ''unknown'' msgNoDomain), newClient)
   \<and> checkDomain emptyDns (JSNumber 7) newClient = (Inr (getErrorResult ''unknown'' msgNoDomain), newClient)
   \<and> checkDomain emptyDns (JSString '' Not A Domain '') newClient
       = (Inr (getErrorResult ''not a domain'' msgInvalidFormat), newClient)"
proof -
  have n: "toLowerCase (trim (stringOf (JSString '' Not A Domain ''))) = ''not a domain''" by code_simp
  have i: "\<not> isValidDomain ''not a domain''" by code_simp
  show ?thesis
    using C10_checkDomain_total[of emptyDns JSNull newClient]
      C10_checkDomain_total[of emptyDns "JSString []" newClient]
      C10_checkDomain_total[of emptyDns "JSNumber 7" newClient]
      C10_checkDomain_total[of emptyDns "JSString '' Not A Domain ''" newClient] n i
    by simp
qed

section \<open>Scanning a list: guards and order of the results\<close>

text \<open>The returned list names the domains in the order of the list it was sorted by, whatever
  the workers pushed.\<close>

lemma resultMap_domain:
  "\<forall>k x. m k = Some x \<longrightarrow> domain x = k \<Longrightarrow>
   \<forall>k x. foldl (\<lambda>m result. m(domain result \<mapsto> result)) m rs k = Some x \<longrightarrow> domain x = k"
proof (induction rs arbitrary: m)
  case Nil
  then show ?case by simp
next
  case (Cons a rs)
  have "\<forall>k x. (m(domain a \<mapsto> a)) k = Some x \<longrightarrow> domain x = k"
  proof (intro allI impI)
    fix k x assume h: "(m(domain a \<mapsto> a)) k = Some x"
    show "domain x = k"
    proof (cases "k = domain a")
      case True
      then have "x = a" using h by simp
      then show ?thesis using True by simp
    next
      case False
      then have "m k = Some x" using h by simp
      then show ?thesis using Cons.prems by blast
    qed
  qed
  from Cons.IH[OF this] show ?case unfolding foldl_Cons .
qed

lemma sortResults_domains: "map domain (sortResultsByOriginalOrder rs ds) = ds"
proof -
  let ?m = "foldl (\<lambda>m result. m(domain result \<mapsto> result)) Map.empty rs"
  have m: "\<forall>k x. ?m k = Some x \<longrightarrow> domain x = k"
    by (rule resultMap_domain) simp
  have "domain (case ?m k of Some result \<Rightarrow> result | None \<Rightarrow> getErrorResult k ''Result not found'') = k" for k
  proof (cases "?m k")
    case None
    then show ?thesis by (simp add: getErrorResult_def)
  next
    case (Some x)
    then have "domain x = k" using m by blast
    then show ?thesis using Some by simp
  qed
  then have "map (\<lambda>k. domain (case ?m k of Some result \<Rightarrow> result
                                | None \<Rightarrow> getErrorResult k ''Result not found'')) ds = ds"
    by (simp add: map_idI)
  then show ?thesis by (simp add: sortResultsByOriginalOrder_def comp_def)
qed


lemma checkDomains_rejects:
  "isScanning st \<or> validDomainsOf domains = [] \<Longrightarrow> \<exists>msg. checkDomains w evs domains st = (Inl msg, st)"
  by (auto simp: checkDomains_def)

lemma checkDomains_runs:
  assumes "\<not> isScanning st" and "validDomainsOf domains \<noteq> []"
  shows "\<exists>rs st'. checkDomains w evs domains st = (Inr rs, st')
           \<and> map domain rs = invalidDomainsOf domains @ validDomainsOf domains
           \<and> \<not> isScanning st'"
proof -
  obtain sc st' where "runPool w evs (startScan domains st) = (sc, st')"
    by (cases "runPool w evs (startScan domains st)")
  then show ?thesis using assms by (simp add: checkDomains_def sortResults_domains)
qed

lemma checkDomains_count:
  assumes "\<not> isScanning st" and "validDomainsOf domains \<noteq> []"
  shows "\<exists>rs st'. checkDomains w evs domains st = (Inr rs, st')
           \<and> length rs = length (filter (\<lambda>d. length d > 0) (map trim domains))"
proof -
  obtain rs st' where r: "checkDomains w evs domains st = (Inr rs, st')"
      "map domain rs = invalidDomainsOf domains @ validDomainsOf domains"
    using checkDomains_runs[OF assms, of w evs] by blast
  let ?xs = "filter (\<lambda>d. length d > 0) (map trim domains)"
  have v: "validDomainsOf domains = filter isValidDomain ?xs"
    by (simp add: validDomainsOf_def conj_commute)
  have i: "invalidDomainsOf domains = filter (\<lambda>d. \<not> isValidDomain d) ?xs"
    by (simp add: invalidDomainsOf_def conj_commute)
  have "length (map domain rs) = length (filter (\<lambda>d. \<not> isValidDomain d) ?xs) + length (filter isValidDomain ?xs)"
    unfolding r(2) v i by simp
  also have "\<dots> = length ?xs"
    using sum_length_filter_compl[of isValidDomain ?xs] by simp
  finally show ?thesis using r(1) by simp
qed

text \<open>
  Claim C7. \<open>checkDomains\<close> rejects in exactly two cases: a scan is already in progress, or
  the list has no valid domain after trimming and validation. In both the client is left
  as it was: \<open>isScanning\<close> keeps its value, no worker has started, no lookup was made and
  the cache is untouched. In every other case the call resolves with a list of results.
\<close>

theorem C7_checkDomains_guards:
  "(isScanning st \<or> validDomainsOf domains = [] \<longrightarrow>
      (\<exists>msg. checkDomains w evs domains st = (Inl msg, st)))
   \<and> (\<not> (isScanning st \<or> validDomainsOf domains = []) \<longrightarrow>
      (\<exists>rs st'. checkDomains w evs domains st = (Inr rs, st')))"
  using checkDomains_rejects[of st domains w evs] checkDomains_runs[of st domains w evs] by blast

text \<open>A call during a scan, a call without a valid domain, and a call that runs.\<close>

theorem C7_checkDomains_guards_witness:
  "(\<exists>msg. checkDomains emptyDns [] [''example.com''] (newClient\<lparr>isScanning := True\<rparr>)
             = (Inl msg, newClient\<lparr>isScanning := True\<rparr>))
   \<and> (\<exists>msg. checkDomains emptyDns [] [''  '', ''not a domain''] newClient = (Inl msg, newClient))
   \<and> (\<exists>rs st'. checkDomains emptyDns [] [''example.com''] newClient = (Inr rs, st'))"
proof -
  have a: "validDomainsOf [''  '', ''not a domain''] = []" by code_simp
  have b: "validDomainsOf [''example.com''] \<noteq> []" by code_simp
  have c: "\<not> isScanning newClient" by (simp add: newClient_def)
  show ?thesis
    using C7_checkDomains_guards[of "newClient\<lparr>isScanning := True\<rparr>" "[''example.com'']" emptyDns "[]"]
      C7_checkDomains_guards[of newClient "[''  '', ''not a domain'']" emptyDns "[]"]
      C7_checkDomains_guards[of newClient "[''example.com'']" emptyDns "[]"] a b c
    by simp
qed

text \<open>
  Claim C1 at \<^verbatim>\<open>checkDomains(["example.com", "not a domain", "gmail.com"])\<close> on a new client:
  in every world and under every schedule of the workers the call resolves with three
  results, and the result of the invalid entry is the first of them, not the middle one:
  the results are sorted in the order of \<^verbatim>\<open>[...invalidDomains, ...validDomains]\<close>.
\<close>

theorem C1_checkDomains_order:
  "\<exists>rs st'. checkDomains w evs [''example.com'', ''not a domain'', ''gmail.com''] newClient = (Inr rs, st')
     \<and> length rs = 3
     \<and> map domain rs = [''not a domain'', ''example.com'', ''gmail.com'']"
proof -
  have v: "validDomainsOf [''example.com'', ''not a domain'', ''gmail.com''] = [''example.com'', ''gmail.com'']"
    by code_simp
  have i: "invalidDomainsOf [''example.com'', ''not a domain'', ''gmail.com''] = [''not a domain'']"
    by code_simp
  have "\<not> isScanning newClient" by (simp add: newClient_def)
  then obtain rs st' where r: "checkDomains w evs [''example.com'', ''not a domain'', ''gmail.com''] newClient = (Inr rs, st')"
      "map domain rs = [''not a domain''] @ [''example.com'', ''gmail.com'']"
    using checkDomains_runs[of newClient "[''example.com'', ''not a domain'', ''gmail.com'']" w evs] v i
    by auto
  have "length (map domain rs) = 3" using r(2) by simp
  then have "length rs = 3" by simp
  then show ?thesis using r by simp
qed

text \<open>The same call in full, in a world whose random draws are all 0 and with the workers
  resumed in turn.\<close>

lemma checkDomains_example_run:
  "fst (checkDomains emptyDns [] [''example.com'', ''not a domain'', ''gmail.com''] newClient) =
     Inr [getErrorResult ''not a domain'' msgInvalidFormat,
          \<lparr>domain = ''example.com'', error = None,
           dmarc = \<lparr>dmarc_status = StOk, dmarc_record = ''v=DMARC1; p=reject; pct=100;'',
                    dmarc_policy = ''reject'', dmarc_error = None\<rparr>,
           spf = \<lparr>spf_status = StOk, spf_record = ''v=spf1 include:_spf.example.com ~all'', spf_error = None\<rparr>,
           dkim = \<lparr>dkim_status = StOk, dkim_selectors = [''default'', ''google''], dkim_error = None\<rparr>,
           mx = [''mx1.example.com'', ''mx2.example.com''], securityScore = 100\<rparr>,
          \<lparr>domain = ''gmail.com'', error = None,
           dmarc = \<lparr>dmarc_status = StOk, dmarc_record = ''v=DMARC1; p=reject; pct=100;'',
                    dmarc_policy = ''reject'', dmarc_error = None\<rparr>,
           spf = \<lparr>spf_status = StOk, spf_record = ''v=spf1 include:_spf.gmail.com ~all'', spf_error = None\<rparr>,
           dkim = \<lparr>dkim_status = StOk, dkim_selectors = [''default'', ''google''], dkim_error = None\<rparr>,
           mx = [''mx1.gmail.com'', ''mx2.gmail.com''], securityScore = 100\<rparr>]"
  by code_simp

section \<open>The cache\<close>

text \<open>A check with caching on stores its result; a stored entry is returned without a check
  and survives every step of a scan and every public method but \<open>clearCache\<close>.\<close>

lemma checkDomainBegin_hit:
  assumes "cacheEnabled st" and "cache st (toLowerCase (trim s)) = Some r" and "s \<noteq> []"
    and "isValidDomain (toLowerCase (trim s))"
  shows "checkDomainBegin (JSString s) st = Resolved r"
  using assms by (simp add: checkDomainBegin_def Let_def)

lemma checkDomainBegin_not_await:
  assumes "cacheEnabled st" and "cache st d = Some r"
  shows "checkDomainBegin v st \<noteq> AwaitCheck d"
  using assms by (auto simp: checkDomainBegin_def Let_def)

lemma checkDomainEnd_keeps:
  assumes "cache st d = Some r" and "\<not> cacheEnabled st \<or> p \<noteq> AwaitCheck d"
  shows "cache (snd (checkDomainEnd w p st)) d = Some r
         \<and> cacheEnabled (snd (checkDomainEnd w p st)) = cacheEnabled st"
proof (cases p)
  case (Resolved x)
  then show ?thesis using assms by (simp add: checkDomainEnd_def)
next
  case (AwaitCheck d')
  obtain x n m where "modeCheck w d' st =
      (Inr x, st\<lparr>dnsCalls := n, randomCalls := m, strategyCalls := strategyCalls st + 1\<rparr>)"
    using modeCheck_shape[of w d' st] by blast
  then show ?thesis using assms AwaitCheck by (auto simp: checkDomainEnd_def)
qed

lemma checkDomain_keeps:
  assumes "cache st d = Some r"
  shows "cache (snd (checkDomain w v st)) d = Some r"
proof -
  have "\<not> cacheEnabled st \<or> checkDomainBegin v st \<noteq> AwaitCheck d"
    using checkDomainBegin_not_await[of st d r v] assms by blast
  then show ?thesis unfolding checkDomain_def using checkDomainEnd_keeps[OF assms] by blast
qed

lemma checkDomain_stores:
  assumes "cacheEnabled st" and "s \<noteq> []" and "isValidDomain (toLowerCase (trim s))"
  shows "\<exists>r st'. checkDomain w (JSString s) st = (Inr r, st') \<and> cache st' (toLowerCase (trim s)) = Some r"
proof (cases "cache st (toLowerCase (trim s))")
  case None
  let ?d = "toLowerCase (trim s)"
  have b: "checkDomainBegin (JSString s) st = AwaitCheck ?d"
    using assms None by (simp add: checkDomainBegin_def Let_def)
  obtain x n m where "modeCheck w ?d st =
      (Inr x, st\<lparr>dnsCalls := n, randomCalls := m, strategyCalls := strategyCalls st + 1\<rparr>)"
    using modeCheck_shape[of w ?d st] by blast
  then show ?thesis using assms(1) b by (simp add: checkDomain_def checkDomainEnd_def)
next
  case (Some r)
  then show ?thesis using assms checkDomainBegin_hit[of st s r]
    by (simp add: checkDomain_def checkDomainEnd_def)
qed

lemma checkDomain_hit:
  assumes "cacheEnabled st" and "cache st (toLowerCase (trim s)) = Some r" and "s \<noteq> []"
    and "isValidDomain (toLowerCase (trim s))"
  shows "checkDomain w (JSString s) st = (Inr r, st)"
  using checkDomainBegin_hit[OF assms] by (simp add: checkDomain_def checkDomainEnd_def)

lemma list_ex_update:
  "\<not> list_ex P ws \<Longrightarrow> \<not> P x \<Longrightarrow> \<not> list_ex P (ws[i := x])"
  by (auto simp: list_ex_iff dest!: set_update_subset_insert[THEN subsetD])

lemma keepsEntry_processNextDomain:
  assumes "keepsEntry d r c"
  shows "keepsEntry d r (processNextDomain i c)"
proof -
  obtain sc st where c: "c = (sc, st)" by (cases c)
  have k: "cache st d = Some r" and e: "\<not> cacheEnabled st \<or> \<not> list_ex (awaits d) (workers sc)"
    using assms c by (auto simp: keepsEntry_def)
  have f: "\<not> awaits d Finished" by (simp add: awaits_def)
  have a: "\<not> cacheEnabled st \<or> \<not> awaits d (Checking x (checkDomainBegin (JSString x) st))" for x
    using checkDomainBegin_not_await[of st d r "JSString x"] k
    by (auto simp: awaits_def split: pending.splits)
  show ?thesis
    using k e f a c list_ex_update[of "awaits d" "workers sc" _ i]
    by (auto simp: processNextDomain_def keepsEntry_def split: list.splits)
qed

lemma keepsEntry_resumeWorker:
  assumes "keepsEntry d r c"
  shows "keepsEntry d r (resumeWorker w i c)"
proof -
  obtain sc st where c: "c = (sc, st)" by (cases c)
  have k: "cache st d = Some r" and e: "\<not> cacheEnabled st \<or> \<not> list_ex (awaits d) (workers sc)"
    using assms c by (auto simp: keepsEntry_def)
  show ?thesis
  proof (cases "i < length (workers sc)")
    case False
    then show ?thesis using assms c by (simp add: resumeWorker_def)
  next
    case True
    show ?thesis
    proof (cases "workers sc ! i")
      case (Checking dd p)
      have "Checking dd p \<in> set (workers sc)" using True Checking by (metis nth_mem)
      then have "\<not> cacheEnabled st \<or> \<not> awaits d (Checking dd p)" using e by (auto simp: list_ex_iff)
      then have p: "\<not> cacheEnabled st \<or> p \<noteq> AwaitCheck d" by (auto simp: awaits_def)
      obtain res st' where r: "checkDomainEnd w p st = (res, st')" by (cases "checkDomainEnd w p st")
      have k': "cache st' d = Some r" and e': "cacheEnabled st' = cacheEnabled st"
        using checkDomainEnd_keeps[OF k p, of w] r by auto
      have "\<not> awaits d Pausing" by (simp add: awaits_def)
      then have "\<not> cacheEnabled st \<or> \<not> list_ex (awaits d) ((workers sc)[i := Pausing])"
        using e list_ex_update[of "awaits d" "workers sc" Pausing i] by blast
      then show ?thesis using True Checking r k' e' c
        by (cases res) (auto simp: resumeWorker_def keepsEntry_def)
    next
      case Pausing
      then show ?thesis using True c keepsEntry_processNextDomain[OF assms, of i]
        by (simp add: resumeWorker_def)
    next
      case Finished
      then show ?thesis using True c assms by (simp add: resumeWorker_def)
    qed
  qed
qed

lemma keepsEntry_stopScan:
  "keepsEntry d r c \<Longrightarrow> keepsEntry d r (fst c, stopScan (snd c))"
  by (simp add: keepsEntry_def stopScan_def)

lemma keepsEntry_runPool:
  "keepsEntry d r c \<Longrightarrow> keepsEntry d r (runPool w evs c)"
proof (induction w evs c rule: runPool.induct)
  case (1 w evs c)
  show ?case
  proof (cases "allFinished (workers (fst c))")
    case True
    then show ?thesis using "1.prems" by simp
  next
    case False
    show ?thesis
    proof (cases evs)
      case Nil
      then show ?thesis
        using False "1.IH"(1)[OF False Nil] keepsEntry_resumeWorker[OF "1.prems"] by simp
    next
      case (Cons ev es)
      show ?thesis
      proof (cases ev)
        case (Resume i)
        then show ?thesis
          using False Cons "1.IH"(2)[OF False Cons Resume] keepsEntry_resumeWorker[OF "1.prems"] by simp
      next
        case UserStop
        then show ?thesis
          using False Cons "1.IH"(3)[OF False Cons UserStop] keepsEntry_stopScan[OF "1.prems"] by simp
      qed
    qed
  qed
qed


lemma keepsEntry_startScan:
  assumes "cache st d = Some r"
  shows "keepsEntry d r (startScan domains st)"
proof -
  let ?f = "\<lambda>c i. processNextDomain i
                         (fst c\<lparr>workers := workers (fst c) @ [Pausing]\<rparr>,
                          snd c\<lparr>activeScanTasks := activeScanTasks (snd c) + 1\<rparr>)"
  have step: "keepsEntry d r c \<Longrightarrow> keepsEntry d r (?f c i)" for c i
  proof -
    assume "keepsEntry d r c"
    then have "keepsEntry d r (fst c\<lparr>workers := workers (fst c) @ [Pausing]\<rparr>,
                          snd c\<lparr>activeScanTasks := activeScanTasks (snd c) + 1\<rparr>)"
      by (simp add: keepsEntry_def awaits_def)
    then show ?thesis by (rule keepsEntry_processNextDomain)
  qed
  have fold: "keepsEntry d r c \<Longrightarrow> keepsEntry d r (foldl ?f c xs)" for c xs
  proof (induction xs arbitrary: c)
    case Nil
    then show ?case by simp
  next
    case (Cons x xs)
    show ?case unfolding foldl_Cons by (rule Cons.IH) (rule step[OF Cons.prems])
  qed
  show ?thesis unfolding startScan_def Let_def
    by (rule fold) (simp add: keepsEntry_def assms)
qed

lemma checkDomains_keeps:
  assumes "cache st d = Some r"
  shows "cache (snd (checkDomains w evs domains st)) d = Some r"
proof -
  obtain sc st' where p: "runPool w evs (startScan domains st) = (sc, st')"
    by (cases "runPool w evs (startScan domains st)")
  have "keepsEntry d r (runPool w evs (startScan domains st))"
    by (rule keepsEntry_runPool) (rule keepsEntry_startScan[OF assms])
  then have "cache st' d = Some r" using p by (simp add: keepsEntry_def)
  then show ?thesis using assms p by (simp add: checkDomains_def)
qed

lemma selectBestAvailableMode_cache: "cache (selectBestAvailableMode w st) = cache st"
  by (cases "dnsAnswer w (dnsCalls st) ''example.com'' ''TXT''")
     (simp_all add: selectBestAvailableMode_def checkApiModeAvailability_def checkWebModeAvailability_def
        checkOfflineModeAvailability_def dnsLookup_def setMode_def Let_def)

lemma perform_keeps:
  assumes "cache st d = Some r" and "c \<noteq> ClearCache"
  shows "cache (perform w c st) d = Some r"
proof (cases c)
  case (CheckDomain v)
  then show ?thesis using checkDomain_keeps[OF assms(1)] by simp
next
  case (CheckDomains evs domains)
  then show ?thesis using checkDomains_keeps[OF assms(1)] by simp
next
  case SelectBestAvailableMode
  then show ?thesis using assms(1) by (simp add: selectBestAvailableMode_cache)
next
  case ClearCache
  then show ?thesis using assms(2) by simp
qed (use assms(1) in \<open>simp_all add: stopScan_def setMode_def setCacheEnabled_def setDelay_def
       setConcurrentRequests_def Let_def\<close>)

lemma performAll_keeps:
  assumes "cache st d = Some r" and "ClearCache \<notin> set calls"
  shows "cache (performAll w calls st) d = Some r"
  using assms unfolding performAll_def
proof (induction calls arbitrary: st)
  case Nil
  then show ?case by simp
next
  case (Cons c calls)
  have "cache (perform w c st) d = Some r" using Cons.prems by (intro perform_keeps) auto
  then show ?case using Cons.IH[of "perform w c st"] Cons.prems(2) by simp
qed

text \<open>
  Claim C8. With caching enabled, a call of \<open>checkDomain\<close> for a valid domain resolves with
  a result that is then in the cache under the normalized domain. The entry stays there,
  with the same result, through every sequence of calls of the public methods that does
  not contain \<open>clearCache\<close>; any later call of \<open>checkDomain\<close> with caching enabled, for a
  string with the same normalized domain, returns that very result and leaves the whole
  client as it is, so no check of a mode runs and the counts of DNS lookups and of mode
  checks do not change. \<open>clearCache\<close> removes the entry.
\<close>

theorem C8_cache:
  assumes "cacheEnabled st0" and "s \<noteq> []" and "isValidDomain (toLowerCase (trim s))"
    and "checkDomain w (JSString s) st0 = (res, st1)"
    and "ClearCache \<notin> set calls"
    and "s' \<noteq> []" and "toLowerCase (trim s') = toLowerCase (trim s)"
  shows "\<exists>r. res = Inr r
           \<and> cache (performAll w calls st1) (toLowerCase (trim s)) = Some r
           \<and> (cacheEnabled (performAll w calls st1) \<longrightarrow>
                checkDomain w (JSString s') (performAll w calls st1) = (Inr r, performAll w calls st1))
           \<and> cache (clearCache (performAll w calls st1)) (toLowerCase (trim s)) = None"
proof -
  let ?d = "toLowerCase (trim s)"
  let ?st2 = "performAll w calls st1"
  obtain r where r: "res = Inr r" "cache st1 ?d = Some r"
    using checkDomain_stores[OF assms(1,2,3), of w] assms(4) by auto
  have k: "cache ?st2 ?d = Some r" by (rule performAll_keeps[OF r(2) assms(5)])
  have "cacheEnabled ?st2 \<Longrightarrow> checkDomain w (JSString s') ?st2 = (Inr r, ?st2)"
    using checkDomain_hit[of ?st2 s' r w] k assms(3,6,7) by simp
  then show ?thesis using r(1) k by (simp add: clearCache_def)
qed

text \<open>A first check of \<^verbatim>\<open>Example.com\<close>, then a change of mode, a check of another domain, a
  scan, caching switched off and on again, and a check of \<^verbatim>\<open>" EXAMPLE.COM "\<close>.\<close>

theorem C8_cache_witness:
  "cacheEnabled newClient
   \<and> isValidDomain (toLowerCase (trim ''Example.com''))
   \<and> ClearCache \<notin> set exampleCalls
   \<and> toLowerCase (trim '' EXAMPLE.COM '') = toLowerCase (trim ''Example.com'')
   \<and> cacheEnabled (performAll emptyDns exampleCalls (snd (checkDomain emptyDns (JSString ''Example.com'') newClient)))
   \<and> (\<exists>r. fst (checkDomain emptyDns (JSString ''Example.com'') newClient) = Inr r
          \<and> checkDomain emptyDns (JSString '' EXAMPLE.COM '')
               (performAll emptyDns exampleCalls (snd (checkDomain emptyDns (JSString ''Example.com'') newClient)))
             = (Inr r, performAll emptyDns exampleCalls (snd (checkDomain emptyDns (JSString ''Example.com'') newClient))))"
proof -
  let ?st1 = "snd (checkDomain emptyDns (JSString ''Example.com'') newClient)"
  have 1: "cacheEnabled newClient" by (simp add: newClient_def)
  have 2: "''Example.com'' \<noteq> []" by simp
  have 3: "isValidDomain (toLowerCase (trim ''Example.com''))" by code_simp
  have 4: "checkDomain emptyDns (JSString ''Example.com'') newClient
            = (fst (checkDomain emptyDns (JSString ''Example.com'') newClient), ?st1)" by simp
  have 5: "ClearCache \<notin> set exampleCalls" by (simp add: exampleCalls_def)
  have 6: "'' EXAMPLE.COM '' \<noteq> []" by simp
  have 7: "toLowerCase (trim '' EXAMPLE.COM '') = toLowerCase (trim ''Example.com'')" by code_simp
  have 8: "cacheEnabled (performAll emptyDns exampleCalls ?st1)" by code_simp
  show ?thesis using C8_cache[OF 1 2 3 4 5 6 7] 1 3 5 7 8 by blast
qed

end
